theory Spec2Isabelle
  imports Main "HOL-Library.Word" "HOL-Library.Multiset" "HOL-Library.Sublist"
begin

section \<open>The synchronisation wrappers of locker.h\<close>

text \<open>
  Every failure of the source is \<^verbatim>\<open>throw std::exception()\<close>: the constructors of
  \<^verbatim>\<open>locker\<close> and \<^verbatim>\<open>sem\<close> and the three throw sites of the pool's constructor
  raise the same type, so the model has one exception value.
\<close>

datatype exn = Std_exception

text \<open>
  \<^verbatim>\<open>locker\<close> wraps a pthread mutex.  Its state is whether some thread holds it.
  The constructor throws when \<^verbatim>\<open>pthread_mutex_init\<close> fails (the argument says whether
  it succeeded).  \<^verbatim>\<open>lock()\<close> does not return while another thread holds the mutex:
  the model gives \<open>None\<close> there.
\<close>

definition locker :: "bool \<Rightarrow> exn + bool" where
  "locker init_ok = (if \<not> init_ok then Inl Std_exception else Inr False)"

definition lock :: "bool \<Rightarrow> bool option" where
  "lock held = (if held then None else Some True)"

definition unlock :: "bool \<Rightarrow> bool" where
  "unlock held = False"

text \<open>
  \<^verbatim>\<open>sem\<close> wraps a POSIX semaphore, initialised to 0 by the constructor the pool uses.
  \<^verbatim>\<open>wait()\<close> returns whether \<^verbatim>\<open>sem_wait\<close> succeeded.  \<^verbatim>\<open>sem_wait\<close> fails
  when a signal handler interrupts it (\<^verbatim>\<open>EINTR\<close>): then \<^verbatim>\<open>wait()\<close> returns false
  and the count is as it was.  Otherwise the call does not return while the count is 0
  (\<open>None\<close>), and then takes one unit and returns true.  The argument says whether the
  call is interrupted; the result is what \<^verbatim>\<open>wait()\<close> returns and the new count.
  \<^verbatim>\<open>post()\<close> adds one unit.  The model has \<^verbatim>\<open>pthread_mutex_lock\<close>,
  \<^verbatim>\<open>pthread_mutex_unlock\<close> and \<^verbatim>\<open>sem_post\<close> succeed; the pool ignores what the
  wrappers return everywhere.
\<close>

definition sem :: "bool \<Rightarrow> exn + nat" where
  "sem init_ok = (if \<not> init_ok then Inl Std_exception else Inr 0)"

definition wait :: "bool \<Rightarrow> nat \<Rightarrow> (bool \<times> nat) option" where
  "wait interrupted cnt =
     (if interrupted then Some (False, cnt)
      else if cnt = 0 then None
      else Some (True, cnt - 1))"

definition post :: "nat \<Rightarrow> nat" where
  "post cnt = cnt + 1"

section \<open>The pool object of threadpool.h\<close>

text \<open>
  A request is a \<^verbatim>\<open>T*\<close>: \<open>None\<close> is the null pointer, \<open>Some t\<close> points to the task
  \<open>t\<close>.  The two \<^verbatim>\<open>int\<close> members are 32-bit words read as signed numbers.
  \<open>m_threads\<close> lists the identifiers of the threads the constructor started.
\<close>

record 't threadpool =
  m_thread_number :: "32 word"
  m_threads :: "nat list"
  m_max_requests :: "32 word"
  m_workqueue :: "'t option list"
  m_queuelocker :: bool
  m_queuestat :: nat
  m_stop :: bool

text \<open>
  What the operating system answers during construction: whether the mutex and the
  semaphore could be initialised, and whether \<^verbatim>\<open>pthread_create\<close> and
  \<^verbatim>\<open>pthread_detach\<close> succeed for the \<open>i\<close>-th worker.
\<close>

record os =
  mutex_init_ok :: bool
  sem_init_ok :: bool
  pthread_create_ok :: "nat \<Rightarrow> bool"
  pthread_detach_ok :: "nat \<Rightarrow> bool"

text \<open>
  The loop of lines 73--116, from index \<open>i\<close> with \<open>k\<close> iterations left.  It returns
  the number of threads \<^verbatim>\<open>pthread_create\<close> has started and whether the loop ran to
  its end without a throw.
\<close>

fun create_threads :: "os \<Rightarrow> nat \<Rightarrow> nat \<Rightarrow> nat \<times> bool" where
  "create_threads e i 0 = (0, True)"
| "create_threads e i (Suc k) =
     (if \<not> pthread_create_ok e i then (0, False)
      else if \<not> pthread_detach_ok e i then (1, False)
      else (case create_threads e (Suc i) k of (n, ok) \<Rightarrow> (Suc n, ok)))"

text \<open>
  The constructor (lines 59--117).  The members are initialised first, in the order of
  their declaration, then the arguments are checked (line 63), then the workers are
  started.  The result is the number of worker threads started, and the exception or
  the constructed pool.
\<close>

definition threadpool :: "os \<Rightarrow> 32 word \<Rightarrow> 32 word \<Rightarrow> nat \<times> (exn + 't threadpool)" where
  "threadpool e thread_number max_requests =
     (case locker (mutex_init_ok e) of
        Inl x \<Rightarrow> (0, Inl x)
      | Inr mtx \<Rightarrow>
     (case sem (sem_init_ok e) of
        Inl x \<Rightarrow> (0, Inl x)
      | Inr cnt \<Rightarrow>
        if sint thread_number \<le> 0 \<or> sint max_requests \<le> 0 then (0, Inl Std_exception)
        else
          (case create_threads e 0 (nat (sint thread_number)) of
             (n, False) \<Rightarrow> (n, Inl Std_exception)
           | (n, True) \<Rightarrow>
               (n, Inr \<lparr>m_thread_number = thread_number, m_threads = [0..<n],
                        m_max_requests = max_requests, m_workqueue = [],
                        m_queuelocker = mtx, m_queuestat = cnt, m_stop = False\<rparr>))))"

text \<open>
  The test of line 136, \<^verbatim>\<open>m_workqueue.size() >= m_max_requests\<close>, compares a
  \<^verbatim>\<open>size_t\<close> with an \<^verbatim>\<open>int\<close>: the \<^verbatim>\<open>int\<close> is converted to the unsigned
  64-bit type first.
\<close>

definition queue_full :: "'t threadpool \<Rightarrow> bool" where
  "queue_full p = (unat (scast (m_max_requests p) :: 64 word) \<le> length (m_workqueue p))"

section \<open>Threads running append and run\<close>

text \<open>
  Several threads run the pool's code at once, so each thread has a control state: the
  statement it executes next, named after the function and the source line, together
  with its local variable \<^verbatim>\<open>request\<close> where it is live.

  \<^item> \<open>Append_lock\<close> 135, \<open>Append_check\<close> 136, \<open>Append_full_unlock\<close> 141--142,
    \<open>Append_push\<close> 144, \<open>Append_unlock\<close> 145, \<open>Append_post\<close> 151--153;
    \<open>Append_return r b\<close>: the call \<^verbatim>\<open>append(r)\<close> has returned \<open>b\<close>.
  \<^item> \<open>Run_while\<close> 187, \<open>Run_wait\<close> 194, \<open>Run_lock\<close> 200, \<open>Run_empty\<close> 202,
    \<open>Run_unlock_continue\<close> 207--208, \<open>Run_front\<close> 210--211, \<open>Run_unlock\<close> 212,
    \<open>Run_null\<close> 213--219, \<open>Run_process\<close> 225; \<open>Run_return\<close>: \<^verbatim>\<open>run()\<close> has
    returned and the worker thread ends.
\<close>

datatype 't pc =
    Append_lock "'t option"
  | Append_check "'t option"
  | Append_full_unlock "'t option"
  | Append_push "'t option"
  | Append_unlock "'t option"
  | Append_post "'t option"
  | Append_return "'t option" bool
  | Run_while
  | Run_wait
  | Run_lock
  | Run_empty
  | Run_unlock_continue
  | Run_front
  | Run_unlock "'t option"
  | Run_null "'t option"
  | Run_process 't
  | Run_return

text \<open>
  The whole system: the pool, the control state of every thread, and three history
  variables that no statement reads: the requests pushed to the queue, the requests
  taken from it, and the tasks whose \<^verbatim>\<open>process()\<close> was called, each in the order
  of the events.
\<close>

record 't sys =
  pool :: "'t threadpool"
  threads :: "'t pc list"
  pushed :: "'t option list"
  popped :: "'t option list"
  processed :: "'t list"

definition set_locker :: "bool \<Rightarrow> 't sys \<Rightarrow> 't sys" where
  "set_locker b s = s\<lparr>pool := (pool s)\<lparr>m_queuelocker := b\<rparr>\<rparr>"

definition set_queuestat :: "nat \<Rightarrow> 't sys \<Rightarrow> 't sys" where
  "set_queuestat n s = s\<lparr>pool := (pool s)\<lparr>m_queuestat := n\<rparr>\<rparr>"

definition set_workqueue :: "'t option list \<Rightarrow> 't sys \<Rightarrow> 't sys" where
  "set_workqueue q s = s\<lparr>pool := (pool s)\<lparr>m_workqueue := q\<rparr>\<rparr>"

text \<open>
  Line 194 of \<^verbatim>\<open>run()\<close> is the statement \<^verbatim>\<open>m_queuestat.wait();\<close>: what
  \<^verbatim>\<open>wait()\<close> returns is dropped, so the worker goes on to line 200 whether it was
  given a unit or \<^verbatim>\<open>sem_wait\<close> failed.
\<close>

definition run_wait :: "bool \<Rightarrow> 't sys \<Rightarrow> ('t pc \<times> 't sys) option" where
  "run_wait interrupted s =
     (case wait interrupted (m_queuestat (pool s)) of
        None \<Rightarrow> None
      | Some (ok, n) \<Rightarrow> Some (Run_lock, set_queuestat n s))"

text \<open>
  One statement of one thread, with no signal arriving: the next control state and the
  new system state, or \<open>None\<close> when the thread cannot move (it is blocked in
  \<^verbatim>\<open>lock()\<close> or \<^verbatim>\<open>wait()\<close>, or it has returned).  \<^verbatim>\<open>front()\<close> on an empty
  list is undefined in C++; the model stops the thread there.
\<close>

fun instr :: "'t pc \<Rightarrow> 't sys \<Rightarrow> ('t pc \<times> 't sys) option" where
  "instr (Append_lock r) s =
     (case lock (m_queuelocker (pool s)) of
        None \<Rightarrow> None
      | Some l \<Rightarrow> Some (Append_check r, set_locker l s))"
| "instr (Append_check r) s =
     Some (if queue_full (pool s) then Append_full_unlock r else Append_push r, s)"
| "instr (Append_full_unlock r) s =
     Some (Append_return r False, set_locker (unlock (m_queuelocker (pool s))) s)"
| "instr (Append_push r) s =
     Some (Append_unlock r,
           (set_workqueue (m_workqueue (pool s) @ [r]) s)\<lparr>pushed := pushed s @ [r]\<rparr>)"
| "instr (Append_unlock r) s =
     Some (Append_post r, set_locker (unlock (m_queuelocker (pool s))) s)"
| "instr (Append_post r) s =
     Some (Append_return r True, set_queuestat (post (m_queuestat (pool s))) s)"
| "instr (Append_return r b) s = None"
| "instr Run_while s =
     Some (if m_stop (pool s) then Run_return else Run_wait, s)"
| "instr Run_wait s = run_wait False s"
| "instr Run_lock s =
     (case lock (m_queuelocker (pool s)) of
        None \<Rightarrow> None
      | Some l \<Rightarrow> Some (Run_empty, set_locker l s))"
| "instr Run_empty s =
     Some (if m_workqueue (pool s) = [] then Run_unlock_continue else Run_front, s)"
| "instr Run_unlock_continue s =
     Some (Run_while, set_locker (unlock (m_queuelocker (pool s))) s)"
| "instr Run_front s =
     (case m_workqueue (pool s) of
        [] \<Rightarrow> None
      | request # q \<Rightarrow>
          Some (Run_unlock request, (set_workqueue q s)\<lparr>popped := popped s @ [request]\<rparr>))"
| "instr (Run_unlock request) s =
     Some (Run_null request, set_locker (unlock (m_queuelocker (pool s))) s)"
| "instr (Run_null request) s =
     Some (case request of None \<Rightarrow> Run_while | Some t \<Rightarrow> Run_process t, s)"
| "instr (Run_process t) s =
     Some (Run_while, s\<lparr>processed := processed s @ [t]\<rparr>)"
| "instr Run_return s = None"

text \<open>
  What can happen next:
  \<^item> \<open>Call r\<close>: some thread calls \<^verbatim>\<open>append(r)\<close> (a new activation, at line 135);
  \<^item> \<open>Step i\<close>: thread \<open>i\<close> executes its next statement (nothing happens when it
    cannot move);
  \<^item> \<open>Interrupt i\<close>: a signal interrupts thread \<open>i\<close> in the \<^verbatim>\<open>sem_wait\<close> of line
    194, so that \<^verbatim>\<open>wait()\<close> fails there (nothing happens when the thread is not at
    line 194);
  \<^item> \<open>Stop\<close>: the destructor stores \<^verbatim>\<open>m_stop = true\<close> (line 126), the last
    statement of its body.  The destruction of the members (the semaphore, the mutex,
    the list) follows that store; what a detached worker does with a destroyed member
    is undefined in C++ and is not modelled, so the events after a \<open>Stop\<close> describe
    the program up to that destruction.
\<close>

datatype 't event = Call "'t option" | Step nat | Interrupt nat | Stop

fun fire :: "'t event \<Rightarrow> 't sys \<Rightarrow> 't sys" where
  "fire (Call r) s = s\<lparr>threads := threads s @ [Append_lock r]\<rparr>"
| "fire (Step i) s =
     (if i < length (threads s) then
        (case instr (threads s ! i) s of
           None \<Rightarrow> s
         | Some (c, s') \<Rightarrow> s'\<lparr>threads := (threads s)[i := c]\<rparr>)
      else s)"
| "fire (Interrupt i) s =
     (if i < length (threads s) \<and> threads s ! i = Run_wait then
        (case run_wait True s of
           None \<Rightarrow> s
         | Some (c, s') \<Rightarrow> s'\<lparr>threads := (threads s)[i := c]\<rparr>)
      else s)"
| "fire Stop s = s\<lparr>pool := (pool s)\<lparr>m_stop := True\<rparr>\<rparr>"

definition exec :: "'t event list \<Rightarrow> 't sys \<Rightarrow> 't sys" where
  "exec evs s = fold fire evs s"

text \<open>
  The system right after a successful construction: the \<open>n\<close> workers the constructor
  started stand at the head of \<^verbatim>\<open>run()\<close>, and nothing has happened yet.
\<close>

definition boot :: "'t threadpool \<Rightarrow> nat \<Rightarrow> 't sys" where
  "boot p n = \<lparr>pool = p, threads = replicate n Run_while, pushed = [], popped = [],
               processed = []\<rparr>"

definition default_os :: os where
  "default_os = \<lparr>mutex_init_ok = True, sem_init_ok = True,
                 pthread_create_ok = (\<lambda>i. True), pthread_detach_ok = (\<lambda>i. True)\<rparr>"

definition small_pool :: "nat threadpool" where
  "small_pool = \<lparr>m_thread_number = 1, m_threads = [0], m_max_requests = 2,
                  m_workqueue = [], m_queuelocker = False, m_queuestat = 0,
                  m_stop = False\<rparr>"

section \<open>What is observed of a system state\<close>

text \<open>The queue's capacity as line 136 reads it.\<close>

definition capacity :: "'t threadpool \<Rightarrow> nat" where
  "capacity p = unat (scast (m_max_requests p) :: 64 word)"

text \<open>The task behind a request (none behind the null pointer), and the tasks of a list.\<close>

fun task :: "'t option \<Rightarrow> 't multiset" where
  "task None = {#}"
| "task (Some t) = {#t#}"

primrec tasks :: "'t option list \<Rightarrow> 't list" where
  "tasks [] = []"
| "tasks (r # rs) = (case r of None \<Rightarrow> tasks rs | Some t \<Rightarrow> t # tasks rs)"

text \<open>
  Counting threads by where they stand.  \<open>holds\<close>: between \<^verbatim>\<open>lock()\<close> and
  \<^verbatim>\<open>unlock()\<close>.  \<open>at_push\<close>: the test of line 136 passed, the push is next.
  \<open>pending_post\<close>: pushed, \<^verbatim>\<open>post()\<close> not yet called.  \<open>in_flight\<close>:
  \<^verbatim>\<open>wait()\<close> has returned, nothing taken from the queue yet.  \<open>at_front\<close>: the
  test of line 202 found a request, taking it is next.  \<open>exited\<close>: the worker has
  left \<^verbatim>\<open>run()\<close>.  \<open>is_worker\<close>: the thread runs \<^verbatim>\<open>run()\<close>.
  \<open>submitting\<close>: the thread is inside a call of \<^verbatim>\<open>append\<close>.
\<close>

fun holds :: "'t pc \<Rightarrow> nat" where
  "holds (Append_check r) = 1"
| "holds (Append_full_unlock r) = 1"
| "holds (Append_push r) = 1"
| "holds (Append_unlock r) = 1"
| "holds Run_empty = 1"
| "holds Run_unlock_continue = 1"
| "holds Run_front = 1"
| "holds (Run_unlock r) = 1"
| "holds _ = 0"

fun at_push :: "'t pc \<Rightarrow> nat" where
  "at_push (Append_push r) = 1"
| "at_push _ = 0"

fun pending_post :: "'t pc \<Rightarrow> nat" where
  "pending_post (Append_unlock r) = 1"
| "pending_post (Append_post r) = 1"
| "pending_post _ = 0"

fun in_flight :: "'t pc \<Rightarrow> nat" where
  "in_flight Run_lock = 1"
| "in_flight Run_empty = 1"
| "in_flight Run_front = 1"
| "in_flight _ = 0"

fun at_front :: "'t pc \<Rightarrow> nat" where
  "at_front Run_front = 1"
| "at_front _ = 0"

fun exited :: "'t pc \<Rightarrow> nat" where
  "exited Run_return = 1"
| "exited _ = 0"

fun is_worker :: "'t pc \<Rightarrow> nat" where
  "is_worker (Append_lock r) = 0"
| "is_worker (Append_check r) = 0"
| "is_worker (Append_full_unlock r) = 0"
| "is_worker (Append_push r) = 0"
| "is_worker (Append_unlock r) = 0"
| "is_worker (Append_post r) = 0"
| "is_worker (Append_return r b) = 0"
| "is_worker _ = 1"


text \<open>
  The tasks a thread accounts for.  \<open>in_hand\<close>: taken from the queue by this worker,
  \<^verbatim>\<open>process()\<close> not yet called.  \<open>posting\<close>: pushed by this call of
  \<^verbatim>\<open>append\<close>, which has not returned yet.  \<open>accepted\<close>: this call of
  \<^verbatim>\<open>append\<close> has returned true for the task.
\<close>

fun in_hand :: "'t pc \<Rightarrow> 't multiset" where
  "in_hand (Run_unlock r) = task r"
| "in_hand (Run_null r) = task r"
| "in_hand (Run_process t) = {#t#}"
| "in_hand _ = {#}"

fun posting :: "'t pc \<Rightarrow> 't multiset" where
  "posting (Append_unlock r) = task r"
| "posting (Append_post r) = task r"
| "posting _ = {#}"

fun accepted :: "'t pc \<Rightarrow> 't multiset" where
  "accepted (Append_return r True) = task r"
| "accepted _ = {#}"

definition tally :: "('t pc \<Rightarrow> 'a::comm_monoid_add) \<Rightarrow> 't sys \<Rightarrow> 'a" where
  "tally f s = sum_list (map f (threads s))"

definition others :: "nat \<Rightarrow> 't sys \<Rightarrow> 't pc list" where
  "others i s = take i (threads s) @ drop (Suc i) (threads s)"

text \<open>
  The invariants of the system, one per concern.  \<open>sem_exact\<close> is not one of them: it
  holds as long as no \<^verbatim>\<open>sem_wait\<close> has failed.
\<close>

definition mutex_inv :: "'t sys \<Rightarrow> bool" where
  "mutex_inv s \<longleftrightarrow> tally holds s = (if m_queuelocker (pool s) then 1 else 0)"

definition capacity_inv :: "'t sys \<Rightarrow> bool" where
  "capacity_inv s \<longleftrightarrow>
     length (m_workqueue (pool s)) + tally at_push s \<le> capacity (pool s)"

definition sem_inv :: "'t sys \<Rightarrow> bool" where
  "sem_inv s \<longleftrightarrow>
     length (m_workqueue (pool s)) \<le>
       m_queuestat (pool s) + tally pending_post s + tally in_flight s"

definition sem_exact :: "'t sys \<Rightarrow> bool" where
  "sem_exact s \<longleftrightarrow>
     length (m_workqueue (pool s)) =
       m_queuestat (pool s) + tally pending_post s + tally in_flight s"

definition front_inv :: "'t sys \<Rightarrow> bool" where
  "front_inv s \<longleftrightarrow> tally at_front s = 0 \<or> m_workqueue (pool s) \<noteq> []"

definition fifo_inv :: "'t sys \<Rightarrow> bool" where
  "fifo_inv s \<longleftrightarrow> pushed s = popped s @ m_workqueue (pool s)"

definition hand_inv :: "'t sys \<Rightarrow> bool" where
  "hand_inv s \<longleftrightarrow> mset (tasks (popped s)) = mset (processed s) + tally in_hand s"

definition accept_inv :: "'t sys \<Rightarrow> bool" where
  "accept_inv s \<longleftrightarrow> mset (tasks (pushed s)) = tally accepted s + tally posting s"

definition exit_inv :: "'t sys \<Rightarrow> bool" where
  "exit_inv s \<longleftrightarrow> m_stop (pool s) \<or> tally exited s = 0"

definition sys_inv :: "'t sys \<Rightarrow> bool" where
  "sys_inv s \<longleftrightarrow> mutex_inv s \<and> capacity_inv s \<and> sem_inv s \<and> front_inv s \<and> fifo_inv s \<and>
     hand_inv s \<and> accept_inv s \<and> exit_inv s"

text \<open>
  A bound on the statements the threads can still execute without a new call of
  \<^verbatim>\<open>append\<close>: every statement a thread executes lowers it.
\<close>

fun weight :: "'t pc \<Rightarrow> nat" where
  "weight (Append_lock r) = 13"
| "weight (Append_check r) = 12"
| "weight (Append_full_unlock r) = 1"
| "weight (Append_push r) = 11"
| "weight (Append_unlock r) = 10"
| "weight (Append_post r) = 9"
| "weight (Append_return r b) = 0"
| "weight Run_while = 1"
| "weight Run_wait = 0"
| "weight Run_lock = 7"
| "weight Run_empty = 6"
| "weight Run_unlock_continue = 2"
| "weight Run_front = 5"
| "weight (Run_unlock r) = 4"
| "weight (Run_null r) = 3"
| "weight (Run_process t) = 2"
| "weight Run_return = 0"

definition potential :: "'t sys \<Rightarrow> nat" where
  "potential s = tally weight s + 8 * m_queuestat (pool s)"

text \<open>No thread can execute a statement: each is blocked or has returned.\<close>

definition quiescent :: "'t sys \<Rightarrow> bool" where
  "quiescent s \<longleftrightarrow> list_all (\<lambda>c. instr c s = None) (threads s)"

text \<open>
  The events in which a \<^verbatim>\<open>sem_wait\<close> fails, and the events that leave worker \<open>i\<close>
  alone: no new call of \<^verbatim>\<open>append\<close> and no signal for worker \<open>i\<close>.
\<close>

fun is_interrupt :: "'t event \<Rightarrow> bool" where
  "is_interrupt (Interrupt i) = True"
| "is_interrupt _ = False"


text \<open>
  Where a call \<^verbatim>\<open>append(r)\<close> can stand once the test of line 136 has found the
  queue full or not, and the threads that are at that test or past it.
\<close>

definition after_check :: "'t option \<Rightarrow> bool \<Rightarrow> 't pc \<Rightarrow> bool" where
  "after_check r full c \<longleftrightarrow>
     (if full then c = Append_full_unlock r \<or> c = Append_return r False
      else c = Append_push r \<or> c = Append_unlock r \<or> c = Append_post r \<or>
           c = Append_return r True)"

definition past_check :: "nat \<Rightarrow> 't option \<Rightarrow> bool \<Rightarrow> 't sys \<Rightarrow> bool" where
  "past_check i r full s \<longleftrightarrow>
     i < length (threads s) \<and>
     (threads s ! i = Append_check r \<and> queue_full (pool s) = full \<or>
      after_check r full (threads s ! i))"

section \<open>Basic facts\<close>

lemma capacity_positive:
  "0 < sint (w :: 32 word) \<Longrightarrow> unat (scast w :: 64 word) = nat (sint w)"
proof -
  assume pos: "0 < sint w"
  have lt: "sint w < 2 ^ 31" using sint_lt [of w] by simp
  have "uint (scast w :: 64 word) = sint w mod 2 ^ LENGTH(64)"
    by (simp only: scast_eq uint_word_of_int)
  also have "\<dots> = sint w" using pos lt by simp
  finally have "uint (scast w :: 64 word) = sint w" .
  then show ?thesis by (simp add: unat_eq_nat_uint)
qed

lemma tasks_append: "tasks (xs @ ys) = tasks xs @ tasks ys"
  by (induction xs) (auto split: option.splits)

lemma mset_tasks_snoc: "mset (tasks (xs @ [r])) = mset (tasks xs) + task r"
  by (cases r) (simp_all add: tasks_append)

lemma exec_Nil [simp]: "exec [] s = s"
  by (simp add: exec_def)

lemma exec_Cons [simp]: "exec (e # evs) s = exec evs (fire e s)"
  by (simp add: exec_def)

lemma exec_append: "exec (evs @ evs') s = exec evs' (exec evs s)"
  by (simp add: exec_def)

lemmas instr_defs = lock_def unlock_def wait_def run_wait_def post_def set_locker_def
  set_queuestat_def set_workqueue_def

lemma tally_self:
  fixes f :: "'t pc \<Rightarrow> 'a::comm_monoid_add"
  assumes "i < length (threads s)"
  shows "tally f s = f (threads s ! i) + sum_list (map f (others i s))"
proof -
  have "threads s = take i (threads s) @ threads s ! i # drop (Suc i) (threads s)"
    using assms by (rule id_take_nth_drop)
  then have "map f (threads s) =
      map f (take i (threads s)) @ f (threads s ! i) # map f (drop (Suc i) (threads s))"
    by (metis list.simps(9) map_append)
  then show ?thesis
    by (simp add: tally_def others_def ac_simps)
qed

lemma tally_moved:
  fixes f :: "'t pc \<Rightarrow> 'a::comm_monoid_add"
  assumes "i < length (threads s)" and "threads s' = (threads s)[i := c']"
  shows "tally f s' = f c' + sum_list (map f (others i s))"
  using assms by (simp add: tally_def others_def upd_conv_take_nth_drop ac_simps)

lemma tally_Call: "tally f (fire (Call r) s) = tally f s + f (Append_lock r)"
  by (simp add: tally_def)

lemma tally_Stop: "tally f (fire Stop s) = tally f s"
  by (simp add: tally_def)

text \<open>
  A step of thread \<open>i\<close> either changes nothing, or replaces the thread's control state
  and leaves the other threads as they are.
\<close>

lemma Step_move:
  assumes i: "i < length (threads s)" and st: "instr (threads s ! i) s = Some (c', s')"
  shows "fire (Step i) s = s'\<lparr>threads := (threads s)[i := c']\<rparr>"
    and "tally f (fire (Step i) s) = f c' + sum_list (map f (others i s))"
proof -
  show f: "fire (Step i) s = s'\<lparr>threads := (threads s)[i := c']\<rparr>"
    using i st by simp
  have "threads (fire (Step i) s) = (threads s)[i := c']"
    unfolding f by simp
  then show "tally f (fire (Step i) s) = f c' + sum_list (map f (others i s))"
    by (rule tally_moved [OF i])
qed

lemma Step_cases [case_names idle move]:
  assumes "fire (Step i) s = s \<Longrightarrow> P"
    and "\<And>c c' s'. \<lbrakk>i < length (threads s); threads s ! i = c; instr c s = Some (c', s');
           fire (Step i) s = s'\<lparr>threads := (threads s)[i := c']\<rparr>;
           \<And>f :: 't pc \<Rightarrow> nat. tally f s = f c + sum_list (map f (others i s));
           \<And>f :: 't pc \<Rightarrow> nat.
              tally f (fire (Step i) s) = f c' + sum_list (map f (others i s));
           \<And>f :: 't pc \<Rightarrow> 't multiset. tally f s = f c + sum_list (map f (others i s));
           \<And>f :: 't pc \<Rightarrow> 't multiset.
              tally f (fire (Step i) s) = f c' + sum_list (map f (others i s))\<rbrakk> \<Longrightarrow> P"
  shows P
proof (cases "i < length (threads s) \<and> instr (threads s ! i) s \<noteq> None")
  case False
  then have "fire (Step i) s = s" by (auto split: option.splits)
  then show P by (rule assms(1))
next
  case True
  then obtain c' s' where i: "i < length (threads s)"
    and st: "instr (threads s ! i) s = Some (c', s')" by auto
  show P
    by (rule assms(2) [OF i refl st Step_move(1) [OF i st]])
       (simp_all only: tally_self [OF i] Step_move(2) [OF i st])
qed

text \<open>
  A failed \<^verbatim>\<open>sem_wait\<close> of thread \<open>i\<close> either changes nothing (the thread is not at
  line 194), or moves the thread to line 200 and leaves everything else as it is.
\<close>

lemma Interrupt_cases [case_names idle woken]:
  assumes "fire (Interrupt i) s = s \<Longrightarrow> P"
    and "\<lbrakk>i < length (threads s); threads s ! i = Run_wait;
           fire (Interrupt i) s = s\<lparr>threads := (threads s)[i := Run_lock]\<rparr>;
           \<And>f :: 't pc \<Rightarrow> nat. tally f s = f Run_wait + sum_list (map f (others i s));
           \<And>f :: 't pc \<Rightarrow> nat.
              tally f (fire (Interrupt i) s) = f Run_lock + sum_list (map f (others i s));
           \<And>f :: 't pc \<Rightarrow> 't multiset.
              tally f s = f Run_wait + sum_list (map f (others i s));
           \<And>f :: 't pc \<Rightarrow> 't multiset.
              tally f (fire (Interrupt i) s) = f Run_lock + sum_list (map f (others i s))\<rbrakk>
          \<Longrightarrow> P"
  shows P
proof (cases "i < length (threads s) \<and> threads s ! i = Run_wait")
  case False
  then have "fire (Interrupt i) s = s" by auto
  then show P by (rule assms(1))
next
  case True
  then have i: "i < length (threads s)" and c: "threads s ! i = Run_wait" by simp_all
  have f: "fire (Interrupt i) s = s\<lparr>threads := (threads s)[i := Run_lock]\<rparr>"
    using True by (simp add: run_wait_def wait_def set_queuestat_def)
  have th: "threads (fire (Interrupt i) s) = (threads s)[i := Run_lock]"
    unfolding f by simp
  show P
    by (rule assms(2) [OF i c f])
       (simp_all only: tally_self [OF i, unfolded c] tally_moved [OF i th])
qed

section \<open>The invariants hold in every reachable state\<close>

lemma mutex_inv_fire: "mutex_inv s \<Longrightarrow> mutex_inv (fire e s)"
proof (cases e)
  case (Call r)
  assume "mutex_inv s"
  then show ?thesis unfolding Call mutex_inv_def tally_Call by simp
next
  case Stop
  assume "mutex_inv s"
  then show ?thesis unfolding Stop mutex_inv_def tally_Stop by simp
next
  case (Step i)
  assume a: "mutex_inv s"
  have "mutex_inv (fire (Step i) s)"
  proof (cases i s rule: Step_cases)
    case idle
    from a show ?thesis by (simp only: idle)
  next
    case (move c c' s')
    from a show ?thesis
      using move(3) unfolding mutex_inv_def move(5,6) [of holds] unfolding move(4)
      by (cases c) (auto simp: instr_defs split: if_splits list.splits option.splits)
  qed
  then show ?thesis by (simp only: Step)
next
  case (Interrupt i)
  assume a: "mutex_inv s"
  have "mutex_inv (fire (Interrupt i) s)"
  proof (cases i s rule: Interrupt_cases)
    case idle
    from a show ?thesis by (simp only: idle)
  next
    case woken
    from a show ?thesis
      unfolding mutex_inv_def woken(4,5) [of holds] unfolding woken(3) by simp
  qed
  then show ?thesis by (simp only: Interrupt)
qed

lemma sole_holder:
  assumes "mutex_inv s" and "i < length (threads s)" and "holds (threads s ! i) = 1"
    and "\<And>c. f c \<le> holds c"
  shows "sum_list (map f (others i s)) = 0"
proof -
  have "tally holds s \<le> 1"
    using assms(1) by (simp add: mutex_inv_def)
  then have "sum_list (map holds (others i s)) = 0"
    using assms(3) by (simp add: tally_self [OF assms(2)])
  moreover have "sum_list (map f (others i s)) \<le> sum_list (map holds (others i s))"
    by (rule sum_list_mono) (rule assms(4))
  ultimately show ?thesis by linarith
qed

lemma at_push_le_holds: "at_push c \<le> holds c"
  by (cases c) simp_all

lemma capacity_inv_fire:
  "mutex_inv s \<Longrightarrow> capacity_inv s \<Longrightarrow> capacity_inv (fire e s)"
proof (cases e)
  case (Call r)
  assume "capacity_inv s"
  then show ?thesis unfolding Call capacity_inv_def tally_Call by (simp add: capacity_def)
next
  case Stop
  assume "capacity_inv s"
  then show ?thesis unfolding Stop capacity_inv_def tally_Stop by (simp add: capacity_def)
next
  case (Step i)
  assume m: "mutex_inv s" and a: "capacity_inv s"
  have "capacity_inv (fire (Step i) s)"
  proof (cases i s rule: Step_cases)
    case idle
    from a show ?thesis by (simp only: idle)
  next
    case (move c c' s')
    have sole: "holds c = 1 \<Longrightarrow> sum_list (map at_push (others i s)) = 0"
      using sole_holder [OF m move(1) _ at_push_le_holds] move(2) by simp
    from a show ?thesis
      using move(3) sole unfolding capacity_inv_def move(5,6) [of at_push] unfolding move(4)
      by (cases c)
         (auto simp: instr_defs capacity_def queue_full_def simp del: sum_list_eq_0_iff
               split: if_splits list.splits option.splits)
  qed
  then show ?thesis by (simp only: Step)
next
  case (Interrupt i)
  assume a: "capacity_inv s"
  have "capacity_inv (fire (Interrupt i) s)"
  proof (cases i s rule: Interrupt_cases)
    case idle
    from a show ?thesis by (simp only: idle)
  next
    case woken
    from a show ?thesis
      unfolding capacity_inv_def woken(4,5) [of at_push] unfolding woken(3) by (simp add: capacity_def)
  qed
  then show ?thesis by (simp only: Interrupt)
qed

lemma sem_inv_fire: "sem_inv s \<Longrightarrow> sem_inv (fire e s)"
proof (cases e)
  case (Call r)
  assume "sem_inv s"
  then show ?thesis unfolding Call sem_inv_def tally_Call by simp
next
  case Stop
  assume "sem_inv s"
  then show ?thesis unfolding Stop sem_inv_def tally_Stop by simp
next
  case (Step i)
  assume a: "sem_inv s"
  have "sem_inv (fire (Step i) s)"
  proof (cases i s rule: Step_cases)
    case idle
    from a show ?thesis by (simp only: idle)
  next
    case (move c c' s')
    from a show ?thesis
      using move(3)
      unfolding sem_inv_def move(5,6) [of pending_post] move(5,6) [of in_flight]
      unfolding move(4)
      by (cases c) (auto simp: instr_defs split: if_splits list.splits option.splits)
  qed
  then show ?thesis by (simp only: Step)
next
  case (Interrupt i)
  assume a: "sem_inv s"
  have "sem_inv (fire (Interrupt i) s)"
  proof (cases i s rule: Interrupt_cases)
    case idle
    from a show ?thesis by (simp only: idle)
  next
    case woken
    from a show ?thesis
      unfolding sem_inv_def woken(4,5) [of pending_post] woken(4,5) [of in_flight] unfolding woken(3) by simp
  qed
  then show ?thesis by (simp only: Interrupt)
qed

lemma sem_exact_fire: "\<not> is_interrupt e \<Longrightarrow> sem_exact s \<Longrightarrow> sem_exact (fire e s)"
proof (cases e)
  case (Call r)
  assume "sem_exact s"
  then show ?thesis unfolding Call sem_exact_def tally_Call by simp
next
  case Stop
  assume "sem_exact s"
  then show ?thesis unfolding Stop sem_exact_def tally_Stop by simp
next
  case (Interrupt i)
  assume "\<not> is_interrupt e"
  then show ?thesis by (simp add: Interrupt)
next
  case (Step i)
  assume a: "sem_exact s"
  have "sem_exact (fire (Step i) s)"
  proof (cases i s rule: Step_cases)
    case idle
    from a show ?thesis by (simp only: idle)
  next
    case (move c c' s')
    from a show ?thesis
      using move(3)
      unfolding sem_exact_def move(5,6) [of pending_post] move(5,6) [of in_flight]
      unfolding move(4)
      by (cases c) (auto simp: instr_defs split: if_splits list.splits option.splits)
  qed
  then show ?thesis by (simp only: Step)
qed

lemma sem_exact_exec:
  "list_all (\<lambda>e. \<not> is_interrupt e) evs \<Longrightarrow> sem_exact s \<Longrightarrow> sem_exact (exec evs s)"
  by (induction evs arbitrary: s) (simp_all add: sem_exact_fire)

lemma at_front_le_holds: "at_front c \<le> holds c"
  by (cases c) simp_all

lemma front_inv_fire:
  "mutex_inv s \<Longrightarrow> front_inv s \<Longrightarrow> front_inv (fire e s)"
proof (cases e)
  case (Call r)
  assume "front_inv s"
  then show ?thesis unfolding Call front_inv_def tally_Call by simp
next
  case Stop
  assume "front_inv s"
  then show ?thesis unfolding Stop front_inv_def tally_Stop by simp
next
  case (Interrupt i)
  assume a: "front_inv s"
  have "front_inv (fire (Interrupt i) s)"
  proof (cases i s rule: Interrupt_cases)
    case idle
    from a show ?thesis by (simp only: idle)
  next
    case woken
    from a show ?thesis
      unfolding front_inv_def woken(4,5) [of at_front] unfolding woken(3) by simp
  qed
  then show ?thesis by (simp only: Interrupt)
next
  case (Step i)
  assume m: "mutex_inv s" and a: "front_inv s"
  have "front_inv (fire (Step i) s)"
  proof (cases i s rule: Step_cases)
    case idle
    from a show ?thesis by (simp only: idle)
  next
    case (move c c' s')
    have sole: "holds c = 1 \<Longrightarrow> sum_list (map at_front (others i s)) = 0"
      using sole_holder [OF m move(1) _ at_front_le_holds] move(2) by simp
    from a show ?thesis
      using move(3) sole unfolding front_inv_def move(5,6) [of at_front] unfolding move(4)
      by (cases c)
         (auto simp: instr_defs simp del: sum_list_eq_0_iff
               split: if_splits list.splits option.splits)
  qed
  then show ?thesis by (simp only: Step)
qed

lemma fifo_inv_fire: "fifo_inv s \<Longrightarrow> fifo_inv (fire e s)"
proof (cases e)
  case (Call r)
  assume "fifo_inv s"
  then show ?thesis unfolding Call fifo_inv_def by simp
next
  case Stop
  assume "fifo_inv s"
  then show ?thesis unfolding Stop fifo_inv_def by simp
next
  case (Step i)
  assume a: "fifo_inv s"
  have "fifo_inv (fire (Step i) s)"
  proof (cases i s rule: Step_cases)
    case idle
    from a show ?thesis by (simp only: idle)
  next
    case (move c c' s')
    from a show ?thesis
      using move(3) unfolding fifo_inv_def move(4)
      by (cases c) (auto simp: instr_defs split: if_splits list.splits option.splits)
  qed
  then show ?thesis by (simp only: Step)
next
  case (Interrupt i)
  assume a: "fifo_inv s"
  have "fifo_inv (fire (Interrupt i) s)"
  proof (cases i s rule: Interrupt_cases)
    case idle
    from a show ?thesis by (simp only: idle)
  next
    case woken
    from a show ?thesis
      unfolding fifo_inv_def woken(3) by simp
  qed
  then show ?thesis by (simp only: Interrupt)
qed

lemma in_hand_null:
  "in_hand (case r of None \<Rightarrow> Run_while | Some t \<Rightarrow> Run_process t) = task r"
  by (cases r) simp_all

lemma hand_inv_fire: "hand_inv s \<Longrightarrow> hand_inv (fire e s)"
proof (cases e)
  case (Call r)
  assume "hand_inv s"
  then show ?thesis unfolding Call hand_inv_def tally_Call by simp
next
  case Stop
  assume "hand_inv s"
  then show ?thesis unfolding Stop hand_inv_def tally_Stop by simp
next
  case (Step i)
  assume a: "hand_inv s"
  have "hand_inv (fire (Step i) s)"
  proof (cases i s rule: Step_cases)
    case idle
    from a show ?thesis by (simp only: idle)
  next
    case (move c c' s')
    from a show ?thesis
      using move(3) unfolding hand_inv_def move(7,8) [of in_hand] unfolding move(4)
      by (cases c)
         (auto simp: instr_defs mset_tasks_snoc in_hand_null
               split: if_splits list.splits option.splits)
  qed
  then show ?thesis by (simp only: Step)
next
  case (Interrupt i)
  assume a: "hand_inv s"
  have "hand_inv (fire (Interrupt i) s)"
  proof (cases i s rule: Interrupt_cases)
    case idle
    from a show ?thesis by (simp only: idle)
  next
    case woken
    from a show ?thesis
      unfolding hand_inv_def woken(6,7) [of in_hand] unfolding woken(3) by simp
  qed
  then show ?thesis by (simp only: Interrupt)
qed

lemma accept_inv_fire: "accept_inv s \<Longrightarrow> accept_inv (fire e s)"
proof (cases e)
  case (Call r)
  assume "accept_inv s"
  then show ?thesis unfolding Call accept_inv_def tally_Call by simp
next
  case Stop
  assume "accept_inv s"
  then show ?thesis unfolding Stop accept_inv_def tally_Stop by simp
next
  case (Step i)
  assume a: "accept_inv s"
  have "accept_inv (fire (Step i) s)"
  proof (cases i s rule: Step_cases)
    case idle
    from a show ?thesis by (simp only: idle)
  next
    case (move c c' s')
    from a show ?thesis
      using move(3)
      unfolding accept_inv_def move(7,8) [of accepted] move(7,8) [of posting]
      unfolding move(4)
      by (cases c)
         (auto simp: instr_defs mset_tasks_snoc split: if_splits list.splits option.splits)
  qed
  then show ?thesis by (simp only: Step)
next
  case (Interrupt i)
  assume a: "accept_inv s"
  have "accept_inv (fire (Interrupt i) s)"
  proof (cases i s rule: Interrupt_cases)
    case idle
    from a show ?thesis by (simp only: idle)
  next
    case woken
    from a show ?thesis
      unfolding accept_inv_def woken(6,7) [of accepted] woken(6,7) [of posting] unfolding woken(3) by simp
  qed
  then show ?thesis by (simp only: Interrupt)
qed

lemma exit_inv_fire: "exit_inv s \<Longrightarrow> exit_inv (fire e s)"
proof (cases e)
  case (Call r)
  assume "exit_inv s"
  then show ?thesis unfolding Call exit_inv_def tally_Call by simp
next
  case Stop
  show ?thesis unfolding Stop exit_inv_def by simp
next
  case (Step i)
  assume a: "exit_inv s"
  have "exit_inv (fire (Step i) s)"
  proof (cases i s rule: Step_cases)
    case idle
    from a show ?thesis by (simp only: idle)
  next
    case (move c c' s')
    from a show ?thesis
      using move(3) unfolding exit_inv_def move(5,6) [of exited] unfolding move(4)
      by (cases c) (auto simp: instr_defs split: if_splits list.splits option.splits)
  qed
  then show ?thesis by (simp only: Step)
next
  case (Interrupt i)
  assume a: "exit_inv s"
  have "exit_inv (fire (Interrupt i) s)"
  proof (cases i s rule: Interrupt_cases)
    case idle
    from a show ?thesis by (simp only: idle)
  next
    case woken
    from a show ?thesis
      unfolding exit_inv_def woken(4,5) [of exited] unfolding woken(3) by simp
  qed
  then show ?thesis by (simp only: Interrupt)
qed

lemma sys_inv_fire: "sys_inv s \<Longrightarrow> sys_inv (fire e s)"
  unfolding sys_inv_def
  by (simp add: mutex_inv_fire capacity_inv_fire sem_inv_fire front_inv_fire fifo_inv_fire
        hand_inv_fire accept_inv_fire exit_inv_fire)

lemma sys_inv_exec: "sys_inv s \<Longrightarrow> sys_inv (exec evs s)"
  by (induction evs arbitrary: s) (simp_all add: sys_inv_fire)

section \<open>Construction\<close>

lemma create_threads_ok: "create_threads e i k = (n, True) \<Longrightarrow> n = k"
  by (induction k arbitrary: i n) (auto split: if_splits prod.splits)

lemma create_threads_all:
  "(\<And>j. pthread_create_ok e j \<and> pthread_detach_ok e j) \<Longrightarrow> create_threads e i k = (k, True)"
  by (induction k arbitrary: i) simp_all

lemma threadpool_Inr:
  assumes "threadpool e thread_number max_requests = (n, Inr p)"
  shows "0 < sint thread_number" and "0 < sint max_requests" and "n = nat (sint thread_number)"
    and "p = \<lparr>m_thread_number = thread_number, m_threads = [0..<n],
               m_max_requests = max_requests, m_workqueue = [], m_queuelocker = False,
               m_queuestat = 0, m_stop = False\<rparr>"
  using assms
  by (auto simp: threadpool_def locker_def sem_def dest: create_threads_ok
           split: if_splits prod.splits bool.splits)

lemma tally_boot: "f Run_while = 0 \<Longrightarrow> tally f (boot p n) = 0"
  by (induction n) (simp_all add: tally_def boot_def)

lemma tally_boot_workers: "tally is_worker (boot p n) = n"
  by (induction n) (simp_all add: tally_def boot_def)

lemma sys_inv_boot:
  assumes "threadpool e thread_number max_requests = (n, Inr p)"
  shows "sys_inv (boot p n)"
  unfolding sys_inv_def mutex_inv_def capacity_inv_def sem_inv_def front_inv_def fifo_inv_def
    hand_inv_def accept_inv_def exit_inv_def
  by (simp add: tally_boot) (simp add: threadpool_Inr(4) [OF assms] boot_def)

lemma sem_exact_boot:
  assumes "threadpool e thread_number max_requests = (n, Inr p)"
  shows "sem_exact (boot p n)"
  unfolding sem_exact_def
  by (simp add: tally_boot) (simp add: threadpool_Inr(4) [OF assms] boot_def)

lemma max_requests_fire: "m_max_requests (pool (fire e s)) = m_max_requests (pool s)"
proof (cases e)
  case (Step i)
  have "m_max_requests (pool (fire (Step i) s)) = m_max_requests (pool s)"
  proof (cases i s rule: Step_cases)
    case idle
    then show ?thesis by simp
  next
    case (move c c' s')
    show ?thesis
      using move(3) unfolding move(4)
      by (cases c) (auto simp: instr_defs split: if_splits list.splits option.splits)
  qed
  then show ?thesis by (simp only: Step)
qed (simp_all add: instr_defs)

lemma max_requests_exec: "m_max_requests (pool (exec evs s)) = m_max_requests (pool s)"
  by (induction evs arbitrary: s) (simp_all add: max_requests_fire)

text \<open>The pool of the examples: one worker, room for two requests.\<close>

lemma threadpool_small: "threadpool default_os 1 2 = (1, Inr small_pool)"
  by (simp add: threadpool_def default_os_def locker_def sem_def small_pool_def)

lemma capacity_boot:
  assumes "threadpool e thread_number max_requests = (n, Inr p)"
  shows "capacity (pool (exec evs (boot p n))) = nat (sint max_requests)"
proof -
  have "m_max_requests (pool (exec evs (boot p n))) = max_requests"
    by (simp add: max_requests_exec boot_def threadpool_Inr(4) [OF assms])
  then show ?thesis
    by (simp add: capacity_def capacity_positive threadpool_Inr(2) [OF assms])
qed

lemmas run_defs = boot_def small_pool_def instr_defs queue_full_def

lemma sys_inv_reachable:
  assumes "threadpool e thread_number max_requests = (n, Inr p)"
  shows "sys_inv (exec evs (boot p n))"
  by (rule sys_inv_exec) (rule sys_inv_boot [OF assms])

lemma queue_step:
  "(m_workqueue (pool (fire ev s)) = m_workqueue (pool s) \<and> pushed (fire ev s) = pushed s \<and>
      popped (fire ev s) = popped s) \<or>
   (\<exists>r. m_workqueue (pool (fire ev s)) = m_workqueue (pool s) @ [r] \<and>
      pushed (fire ev s) = pushed s @ [r] \<and> popped (fire ev s) = popped s) \<or>
   (\<exists>r. m_workqueue (pool s) = r # m_workqueue (pool (fire ev s)) \<and>
      popped (fire ev s) = popped s @ [r] \<and> pushed (fire ev s) = pushed s)"
proof (cases ev)
  case (Step i)
  have "(m_workqueue (pool (fire (Step i) s)) = m_workqueue (pool s) \<and>
      pushed (fire (Step i) s) = pushed s \<and> popped (fire (Step i) s) = popped s) \<or>
   (\<exists>r. m_workqueue (pool (fire (Step i) s)) = m_workqueue (pool s) @ [r] \<and>
      pushed (fire (Step i) s) = pushed s @ [r] \<and> popped (fire (Step i) s) = popped s) \<or>
   (\<exists>r. m_workqueue (pool s) = r # m_workqueue (pool (fire (Step i) s)) \<and>
      popped (fire (Step i) s) = popped s @ [r] \<and> pushed (fire (Step i) s) = pushed s)"
  proof (cases i s rule: Step_cases)
    case idle
    then show ?thesis by simp
  next
    case (move c c' s')
    show ?thesis
      using move(3) unfolding move(4)
      by (cases c) (auto simp: instr_defs split: if_splits list.splits option.splits)
  qed
  then show ?thesis by (simp only: Step)
qed (simp_all add: instr_defs)

lemma not_full:
  assumes "int (length (m_workqueue p)) < sint (m_max_requests p)"
  shows "\<not> queue_full p"
proof -
  have "0 < sint (m_max_requests p)" using assms by linarith
  then have "unat (scast (m_max_requests p) :: 64 word) = nat (sint (m_max_requests p))"
    by (rule capacity_positive)
  then show ?thesis using assms by (simp add: queue_full_def)
qed

lemma threads_fire_other:
  assumes i: "i < length (threads s)" and "ev \<noteq> Step i"
    and "ev \<noteq> Interrupt i \<or> threads s ! i \<noteq> Run_wait"
  shows "threads (fire ev s) ! i = threads s ! i \<and> i < length (threads (fire ev s))"
proof (cases ev)
  case (Call r)
  then show ?thesis using i by (simp add: nth_append)
next
  case Stop
  then show ?thesis using i by simp
next
  case (Step j)
  then have ne: "j \<noteq> i" using assms(2) by simp
  have "threads (fire (Step j) s) ! i = threads s ! i \<and> i < length (threads (fire (Step j) s))"
  proof (cases j s rule: Step_cases)
    case idle
    then show ?thesis using i by simp
  next
    case (move c c' s')
    show ?thesis unfolding move(4) using i ne by simp
  qed
  then show ?thesis by (simp only: Step)
next
  case (Interrupt j)
  have "threads (fire (Interrupt j) s) ! i = threads s ! i \<and>
      i < length (threads (fire (Interrupt j) s))"
  proof (cases j s rule: Interrupt_cases)
    case idle
    then show ?thesis using i by simp
  next
    case woken
    then have "j \<noteq> i" using assms(3) Interrupt by auto
    then show ?thesis unfolding woken(3) using i by simp
  qed
  then show ?thesis by (simp only: Interrupt)
qed



section \<open>A call of append after its test\<close>

lemma nth_in_others:
  assumes "j < length (threads s)" and "j \<noteq> i"
  shows "threads s ! j \<in> set (others i s)"
proof (cases "j < i")
  case True
  then have "threads s ! j = take i (threads s) ! j" by simp
  moreover have "j < length (take i (threads s))" using True assms(1) by simp
  ultimately have "threads s ! j \<in> set (take i (threads s))" by (metis nth_mem)
  then show ?thesis by (simp add: others_def)
next
  case False
  then have "Suc i \<le> j" using assms(2) by simp
  then have "threads s ! j = drop (Suc i) (threads s) ! (j - Suc i)"
    using assms(1) by simp
  moreover have "j - Suc i < length (drop (Suc i) (threads s))"
    using \<open>Suc i \<le> j\<close> assms(1) by simp
  ultimately have "threads s ! j \<in> set (drop (Suc i) (threads s))" by (metis nth_mem)
  then show ?thesis by (simp add: others_def)
qed

lemma other_not_holder:
  assumes "mutex_inv s" and "i < length (threads s)" and "holds (threads s ! i) = 1"
    and "j < length (threads s)" and "j \<noteq> i"
  shows "holds (threads s ! j) = 0"
proof -
  have "sum_list (map holds (others i s)) = 0"
    by (rule sole_holder [OF assms(1-3)]) simp
  then have "\<forall>c \<in> set (others i s). holds c = 0" by simp
  then show ?thesis using nth_in_others [OF assms(4,5)] by blast
qed

lemma not_holder_keeps_queue:
  "holds c = 0 \<Longrightarrow> instr c s = Some (c', s') \<Longrightarrow> queue_full (pool s') = queue_full (pool s)"
  by (cases c) (auto simp: instr_defs queue_full_def split: if_splits list.splits option.splits)

lemma after_check_step:
  "after_check r full c \<Longrightarrow> instr c s = Some (c', s') \<Longrightarrow> after_check r full c'"
  by (cases c) (auto simp: instr_defs after_check_def split: if_splits)

lemma check_step:
  "instr (Append_check r) s = Some (c', s') \<Longrightarrow> after_check r (queue_full (pool s)) c'"
  by (auto simp: after_check_def)

lemma past_check_fire:
  assumes m: "mutex_inv s" and c: "past_check i r full s"
  shows "past_check i r full (fire ev s)"
proof (cases "ev = Step i")
  case False
  have i: "i < length (threads s)" using c by (simp add: past_check_def)
  have "threads s ! i \<noteq> Run_wait"
    using c by (auto simp: past_check_def after_check_def split: if_splits)
  then have "ev \<noteq> Interrupt i \<or> threads s ! i \<noteq> Run_wait" by simp
  note same = threads_fire_other [OF i False this]
  show ?thesis
  proof (cases "threads s ! i = Append_check r")
    case notchk: False
    then show ?thesis using c same by (simp add: past_check_def)
  next
    case chk: True
    then have full: "queue_full (pool s) = full"
      using c by (auto simp: past_check_def after_check_def split: if_splits)
    have "queue_full (pool (fire ev s)) = queue_full (pool s)"
    proof (cases ev)
      case (Step j)
      then have ne: "j \<noteq> i" using False by simp
      have "queue_full (pool (fire (Step j) s)) = queue_full (pool s)"
      proof (cases j s rule: Step_cases)
        case idle
        then show ?thesis by simp
      next
        case (move d d' s')
        have "holds (threads s ! j) = 0"
          by (rule other_not_holder [OF m i _ move(1) ne]) (simp add: chk)
        then have "queue_full (pool s') = queue_full (pool s)"
          using move(3) unfolding move(2) by (rule not_holder_keeps_queue)
        then show ?thesis unfolding move(4) by simp
      qed
      then show ?thesis by (simp only: Step)
    qed (simp_all add: queue_full_def instr_defs)
    then show ?thesis using chk full same by (simp add: past_check_def)
  qed
next
  case True
  have i: "i < length (threads s)" using c by (simp add: past_check_def)
  have "past_check i r full (fire (Step i) s)"
  proof (cases i s rule: Step_cases)
    case idle
    then show ?thesis using c by simp
  next
    case (move d d' s')
    have th: "threads (s'\<lparr>threads := (threads s)[i := d']\<rparr>) ! i = d'"
      using i by simp
    have "after_check r full d'"
    proof (cases "d = Append_check r")
      case True
      then show ?thesis using c move(2,3) check_step [of r s d' s']
        by (auto simp: past_check_def after_check_def split: if_splits)
    next
      case False
      then have "after_check r full d" using c move(2) by (simp add: past_check_def)
      then show ?thesis using move(3) by (rule after_check_step)
    qed
    then show ?thesis unfolding move(4) past_check_def using i by simp
  qed
  then show ?thesis by (simp only: True)
qed

lemma past_check_exec:
  "sys_inv s \<Longrightarrow> past_check i r full s \<Longrightarrow> past_check i r full (exec evs s)"
proof (induction evs arbitrary: s)
  case Nil
  then show ?case by simp
next
  case (Cons ev evs)
  have "mutex_inv s" using Cons.prems(1) by (simp add: sys_inv_def)
  then have "past_check i r full (fire ev s)" using Cons.prems(2) by (rule past_check_fire)
  moreover have "sys_inv (fire ev s)" using Cons.prems(1) by (rule sys_inv_fire)
  ultimately show ?case using Cons.IH by simp
qed

section \<open>Progress\<close>

lemma potential_Step:
  assumes i: "i < length (threads s)" and en: "instr (threads s ! i) s \<noteq> None"
  shows "potential (fire (Step i) s) < potential s"
proof -
  from en obtain c' s' where st: "instr (threads s ! i) s = Some (c', s')" by auto
  show ?thesis
    using st
    unfolding potential_def tally_self [OF i, of weight] Step_move(2) [OF i st, of weight]
    unfolding Step_move(1) [OF i st]
    by (cases "threads s ! i")
       (auto simp: instr_defs split: if_splits list.splits option.splits)
qed

lemma run_to_quiescence: "\<exists>sched. quiescent (exec (map Step sched) s)"
proof (induction "potential s" arbitrary: s rule: less_induct)
  case less
  show ?case
  proof (cases "quiescent s")
    case True
    then have "quiescent (exec (map Step []) s)" by simp
    then show ?thesis by blast
  next
    case False
    then obtain i where i: "i < length (threads s)" "instr (threads s ! i) s \<noteq> None"
      by (auto simp: quiescent_def list_all_iff in_set_conv_nth)
    from less [OF potential_Step [OF i]]
    obtain sched where "quiescent (exec (map Step sched) (fire (Step i) s))" by blast
    then have "quiescent (exec (map Step (i # sched)) s)" by simp
    then show ?thesis by blast
  qed
qed

lemma is_worker_fire: "tally is_worker (fire ev s) = tally is_worker s"
proof (cases ev)
  case (Step i)
  have "tally is_worker (fire (Step i) s) = tally is_worker s"
  proof (cases i s rule: Step_cases)
    case idle
    then show ?thesis by simp
  next
    case (move c c' s')
    show ?thesis
      using move(3) unfolding move(5,6) [of is_worker]
      by (cases c) (auto simp: instr_defs split: if_splits list.splits option.splits)
  qed
  then show ?thesis by (simp only: Step)
next
  case (Interrupt i)
  have "tally is_worker (fire (Interrupt i) s) = tally is_worker s"
  proof (cases i s rule: Interrupt_cases)
    case idle
    then show ?thesis by simp
  next
    case woken
    show ?thesis unfolding woken(4,5) [of is_worker] by simp
  qed
  then show ?thesis by (simp only: Interrupt)
qed (simp_all add: tally_def)

lemma is_worker_exec: "tally is_worker (exec evs s) = tally is_worker s"
  by (induction evs arbitrary: s) (simp_all add: is_worker_fire)

lemma stop_fire: "ev \<noteq> Stop \<Longrightarrow> m_stop (pool (fire ev s)) = m_stop (pool s)"
proof (cases ev)
  case (Step i)
  have "m_stop (pool (fire (Step i) s)) = m_stop (pool s)"
  proof (cases i s rule: Step_cases)
    case idle
    then show ?thesis by simp
  next
    case (move c c' s')
    show ?thesis
      using move(3) unfolding move(4)
      by (cases c) (auto simp: instr_defs split: if_splits list.splits option.splits)
  qed
  then show ?thesis by (simp only: Step)
qed (simp_all add: instr_defs)

lemma stop_exec: "Stop \<notin> set evs \<Longrightarrow> m_stop (pool (exec evs s)) = m_stop (pool s)"
proof (induction evs arbitrary: s)
  case Nil
  show ?case by simp
next
  case (Cons ev evs)
  have a: "ev \<noteq> Stop" and b: "Stop \<notin> set evs" using Cons.prems by auto
  have "m_stop (pool (exec evs (fire ev s))) = m_stop (pool (fire ev s))"
    using b by (rule Cons.IH)
  also have "\<dots> = m_stop (pool s)" using a by (rule stop_fire)
  finally show ?case by (simp only: exec_Cons)
qed

lemma accepted_fire: "tally accepted s \<subseteq># tally accepted (fire ev s)"
proof (cases ev)
  case (Step i)
  have "tally accepted s \<subseteq># tally accepted (fire (Step i) s)"
  proof (cases i s rule: Step_cases)
    case idle
    then show ?thesis by simp
  next
    case (move c c' s')
    show ?thesis
      using move(3) unfolding move(7,8) [of accepted]
      by (cases c) (auto simp: instr_defs split: if_splits list.splits option.splits)
  qed
  then show ?thesis by (simp only: Step)
next
  case (Interrupt i)
  have "tally accepted s \<subseteq># tally accepted (fire (Interrupt i) s)"
  proof (cases i s rule: Interrupt_cases)
    case idle
    then show ?thesis by simp
  next
    case woken
    show ?thesis unfolding woken(6,7) [of accepted] by simp
  qed
  then show ?thesis by (simp only: Interrupt)
qed (simp_all add: tally_def)

lemma accepted_exec: "tally accepted s \<subseteq># tally accepted (exec evs s)"
proof (induction evs arbitrary: s)
  case Nil
  show ?case by simp
next
  case (Cons ev evs)
  have "tally accepted s \<subseteq># tally accepted (fire ev s)" by (rule accepted_fire)
  also have "\<dots> \<subseteq># tally accepted (exec evs (fire ev s))" by (rule Cons.IH)
  finally show ?case by simp
qed

lemma conservation:
  assumes "sys_inv s"
  shows "tally accepted s + tally posting s =
           mset (processed s) + tally in_hand s + mset (tasks (m_workqueue (pool s)))"
proof -
  have "mset (tasks (pushed s)) = tally accepted s + tally posting s"
    using assms by (simp add: sys_inv_def accept_inv_def)
  moreover have "pushed s = popped s @ m_workqueue (pool s)"
    using assms by (simp add: sys_inv_def fifo_inv_def)
  then have "mset (tasks (pushed s)) =
      mset (tasks (popped s)) + mset (tasks (m_workqueue (pool s)))"
    by (simp add: tasks_append)
  moreover have "mset (tasks (popped s)) = mset (processed s) + tally in_hand s"
    using assms by (simp add: sys_inv_def hand_inv_def)
  ultimately show ?thesis by simp
qed

lemma tally_zero:
  fixes f :: "'t pc \<Rightarrow> 'a::comm_monoid_add"
  assumes "\<And>c. c \<in> set (threads s) \<Longrightarrow> f c = 0"
  shows "tally f s = 0"
proof -
  have "(\<And>c. c \<in> set cs \<Longrightarrow> f c = 0) \<Longrightarrow> sum_list (map f cs) = 0" for cs
    by (induction cs) simp_all
  then show ?thesis unfolding tally_def using assms by blast
qed

lemma quiescent_drained:
  assumes sys_inv: "sys_inv s" and q: "quiescent s" and run: "\<not> m_stop (pool s)"
    and w: "0 < tally is_worker s"
  shows "m_workqueue (pool s) = []" and "m_queuestat (pool s) = 0"
    and "tally in_hand s = {#}" and "tally posting s = {#}"
proof -
  have blocked: "instr c s = None" if "c \<in> set (threads s)" for c
    using q that by (simp add: quiescent_def list_all_iff)
  have sem: "length (m_workqueue (pool s)) \<le>
      m_queuestat (pool s) + tally pending_post s + tally in_flight s"
    using sys_inv by (simp add: sys_inv_def sem_inv_def)
  have front: "tally at_front s = 0 \<or> m_workqueue (pool s) \<noteq> []"
    using sys_inv by (simp add: sys_inv_def front_inv_def)
  have no_front: "Run_front \<notin> set (threads s)"
  proof
    assume a: "Run_front \<in> set (threads s)"
    then have "instr Run_front s = None" by (rule blocked)
    then have e: "m_workqueue (pool s) = []" by (simp split: list.splits)
    have "at_front Run_front \<in> set (map at_front (threads s))"
      using imageI [OF a, of at_front] by simp
    then have "at_front Run_front \<le> tally at_front s"
      unfolding tally_def by (auto intro: member_le_sum_list)
    then show False using front e by simp
  qed
  have free: "holds c = 0" if "c \<in> set (threads s)" for c
    using blocked [OF that] that no_front
    by (cases c) (auto simp: instr_defs split: if_splits option.splits)
  then have "tally holds s = 0" by (simp add: tally_def)
  then have unlocked: "\<not> m_queuelocker (pool s)"
    using sys_inv by (simp add: sys_inv_def mutex_inv_def split: if_splits)
  have "tally exited s = 0"
    using sys_inv run by (simp add: sys_inv_def exit_inv_def)
  then have inside: "exited c = 0" if "c \<in> set (threads s)" for c
    using that by (simp add: tally_def)
  have shape: "c = Run_wait \<or> (\<exists>r b. c = Append_return r b)" if "c \<in> set (threads s)" for c
    using blocked [OF that] inside [OF that] that no_front unlocked
    by (cases c) (auto simp: instr_defs split: if_splits option.splits)
  have "\<exists>c \<in> set (threads s). is_worker c \<noteq> 0"
  proof (rule ccontr)
    assume "\<not> (\<exists>c \<in> set (threads s). is_worker c \<noteq> 0)"
    then have "tally is_worker s = 0" by (simp add: tally_def)
    then show False using w by simp
  qed
  then obtain c where c: "c \<in> set (threads s)" "is_worker c \<noteq> 0" by blast
  have "c = Run_wait" using shape [OF c(1)] c(2) by auto
  then have "Run_wait \<in> set (threads s)" using c(1) by simp
  then have "instr Run_wait s = None" by (rule blocked)
  then show z: "m_queuestat (pool s) = 0"
    by (simp add: wait_def run_wait_def split: if_splits)
  have "pending_post c = 0" and "in_flight c = 0" if "c \<in> set (threads s)" for c
    using shape [OF that] by auto
  then have "tally pending_post s = 0" and "tally in_flight s = 0"
    by (simp_all add: tally_def)
  then show "m_workqueue (pool s) = []" using sem z by simp
  have "in_hand c = {#}" and "posting c = {#}" if "c \<in> set (threads s)" for c
    using shape [OF that] by auto
  then show "tally in_hand s = {#}" and "tally posting s = {#}"
    by (simp_all add: tally_zero)
qed

section \<open>The queue is bounded\<close>

text \<open>
  C3.  In every state reached from a freshly constructed pool by calls of
  \<^verbatim>\<open>append\<close>, statements of the threads, failed waits and the destructor's store,
  in any interleaving, the queue holds at most \<^verbatim>\<open>max_requests\<close> requests.
\<close>

theorem queue_within_max_requests:
  assumes "threadpool e thread_number max_requests = (n, Inr p)"
  shows "int (length (m_workqueue (pool (exec evs (boot p n))))) \<le> sint max_requests"
proof -
  have "sys_inv (exec evs (boot p n))"
    by (rule sys_inv_exec) (rule sys_inv_boot [OF assms])
  then have "capacity_inv (exec evs (boot p n))"
    by (simp add: sys_inv_def)
  then have "length (m_workqueue (pool (exec evs (boot p n)))) \<le> nat (sint max_requests)"
    by (simp add: capacity_inv_def capacity_boot [OF assms])
  then show ?thesis using threadpool_Inr(2) [OF assms] by linarith
qed

theorem queue_within_max_requests_witness:
  "length (m_workqueue (pool (exec
      [Call (Some 1), Step 1, Step 1, Step 1, Step 1, Step 1,
       Call (Some 2), Step 2, Step 2, Step 2, Step 2, Step 2,
       Call (Some 3), Step 3, Step 3, Step 3] (boot small_pool 1)))) = 2 \<and>
   int (length (m_workqueue (pool (exec
      [Call (Some 1), Step 1, Step 1, Step 1, Step 1, Step 1,
       Call (Some 2), Step 2, Step 2, Step 2, Step 2, Step 2,
       Call (Some 3), Step 3, Step 3, Step 3] (boot small_pool 1))))) \<le> sint (2 :: 32 word)"
proof
  show "length (m_workqueue (pool (exec
      [Call (Some 1), Step 1, Step 1, Step 1, Step 1, Step 1,
       Call (Some 2), Step 2, Step 2, Step 2, Step 2, Step 2,
       Call (Some 3), Step 3, Step 3, Step 3] (boot small_pool 1)))) = 2"
    by (simp add: run_defs)
  show "int (length (m_workqueue (pool (exec
      [Call (Some 1), Step 1, Step 1, Step 1, Step 1, Step 1,
       Call (Some 2), Step 2, Step 2, Step 2, Step 2, Step 2,
       Call (Some 3), Step 3, Step 3, Step 3] (boot small_pool 1))))) \<le> sint (2 :: 32 word)"
    by (rule queue_within_max_requests [OF threadpool_small])
qed

section \<open>Requests leave the queue in the order they entered it\<close>

text \<open>
  C4.  In every reachable state the requests pushed so far are the requests taken so
  far followed by the queue's content, so the requests are taken, by all workers
  together, in the order they were pushed.  Every event leaves the queue as it is, or
  adds one request at its tail (line 144), or removes its head (lines 210--211).
\<close>

theorem queue_is_fifo:
  assumes "threadpool e thread_number max_requests = (n, Inr p)"
  shows "pushed (exec evs (boot p n)) =
           popped (exec evs (boot p n)) @ m_workqueue (pool (exec evs (boot p n))) \<and>
         prefix (popped (exec evs (boot p n))) (pushed (exec evs (boot p n))) \<and>
         ((m_workqueue (pool (exec (evs @ [ev]) (boot p n))) =
             m_workqueue (pool (exec evs (boot p n))) \<and>
           popped (exec (evs @ [ev]) (boot p n)) = popped (exec evs (boot p n))) \<or>
          (\<exists>r. m_workqueue (pool (exec (evs @ [ev]) (boot p n))) =
                 m_workqueue (pool (exec evs (boot p n))) @ [r] \<and>
               popped (exec (evs @ [ev]) (boot p n)) = popped (exec evs (boot p n))) \<or>
          (\<exists>r. m_workqueue (pool (exec evs (boot p n))) =
                 r # m_workqueue (pool (exec (evs @ [ev]) (boot p n))) \<and>
               popped (exec (evs @ [ev]) (boot p n)) = popped (exec evs (boot p n)) @ [r]))"
proof -
  have "fifo_inv (exec evs (boot p n))"
    using sys_inv_reachable [OF assms] by (simp add: sys_inv_def)
  then have a: "pushed (exec evs (boot p n)) =
           popped (exec evs (boot p n)) @ m_workqueue (pool (exec evs (boot p n)))"
    by (simp add: fifo_inv_def)
  then have b: "prefix (popped (exec evs (boot p n))) (pushed (exec evs (boot p n)))"
    by simp
  have c: "exec (evs @ [ev]) (boot p n) = fire ev (exec evs (boot p n))"
    by (simp add: exec_append)
  show ?thesis
    using a b queue_step [of ev "exec evs (boot p n)"] unfolding c by blast
qed

theorem queue_is_fifo_witness:
  "pushed (exec [Call (Some 1), Step 1, Step 1, Step 1, Step 1, Step 1,
       Call (Some 2), Step 2, Step 2, Step 2, Step 2, Step 2,
       Step 0, Step 0, Step 0, Step 0] (boot small_pool 1)) = [Some 1, Some 2] \<and>
   m_workqueue (pool (exec [Call (Some 1), Step 1, Step 1, Step 1, Step 1, Step 1,
       Call (Some 2), Step 2, Step 2, Step 2, Step 2, Step 2,
       Step 0, Step 0, Step 0, Step 0] (boot small_pool 1))) = [Some 1, Some 2] \<and>
   m_workqueue (pool (exec ([Call (Some 1), Step 1, Step 1, Step 1, Step 1, Step 1,
       Call (Some 2), Step 2, Step 2, Step 2, Step 2, Step 2,
       Step 0, Step 0, Step 0, Step 0] @ [Step 0]) (boot small_pool 1))) = [Some 2] \<and>
   popped (exec ([Call (Some 1), Step 1, Step 1, Step 1, Step 1, Step 1,
       Call (Some 2), Step 2, Step 2, Step 2, Step 2, Step 2,
       Step 0, Step 0, Step 0, Step 0] @ [Step 0]) (boot small_pool 1)) = [Some 1]"
  using queue_is_fifo [OF threadpool_small,
      of "[Call (Some 1), Step 1, Step 1, Step 1, Step 1, Step 1,
       Call (Some 2), Step 2, Step 2, Step 2, Step 2, Step 2,
       Step 0, Step 0, Step 0, Step 0]" "Step 0"]
  by (simp add: run_defs)

section \<open>The semaphore and the queue\<close>

text \<open>
  C6, as stated: outside the sections the mutex protects, the semaphore's count is the
  queue's length.  This fails between lines 145 and 151: the request is in the queue, the
  mutex is released and \<^verbatim>\<open>post()\<close> has not been called yet.
\<close>

theorem semaphore_lags_queue_counterexample:
  "\<not> m_queuelocker (pool (exec [Call (Some 1), Step 1, Step 1, Step 1, Step 1]
        (boot small_pool 1))) \<and>
   m_queuestat (pool (exec [Call (Some 1), Step 1, Step 1, Step 1, Step 1]
        (boot small_pool 1))) \<noteq>
   length (m_workqueue (pool (exec [Call (Some 1), Step 1, Step 1, Step 1, Step 1]
        (boot small_pool 1))))"
  by (simp add: run_defs)

text \<open>
  C6, amended.  In every reachable state the queue's length is at most the semaphore's
  count plus the number of calls of \<^verbatim>\<open>append\<close> that have pushed and not yet posted,
  plus the number of workers that have returned from \<^verbatim>\<open>wait()\<close> and not yet taken
  a request.  As long as no \<^verbatim>\<open>sem_wait\<close> has failed the two are equal, and then the
  count equals the length whenever no thread stands between these points.  (A worker
  whose \<^verbatim>\<open>sem_wait\<close> failed takes a request without taking a unit, and leaves the
  count above the length.)
\<close>

theorem semaphore_counts_queue:
  assumes "threadpool e thread_number max_requests = (n, Inr p)"
  shows "length (m_workqueue (pool (exec evs (boot p n)))) \<le>
           m_queuestat (pool (exec evs (boot p n))) +
           tally pending_post (exec evs (boot p n)) + tally in_flight (exec evs (boot p n)) \<and>
         (list_all (\<lambda>ev. \<not> is_interrupt ev) evs \<longrightarrow>
            length (m_workqueue (pool (exec evs (boot p n)))) =
              m_queuestat (pool (exec evs (boot p n))) +
              tally pending_post (exec evs (boot p n)) +
              tally in_flight (exec evs (boot p n)) \<and>
            (tally pending_post (exec evs (boot p n)) = 0 \<and>
             tally in_flight (exec evs (boot p n)) = 0 \<longrightarrow>
               m_queuestat (pool (exec evs (boot p n))) =
               length (m_workqueue (pool (exec evs (boot p n))))))"
proof -
  have "sem_inv (exec evs (boot p n))"
    using sys_inv_reachable [OF assms] by (simp add: sys_inv_def)
  then have le: "length (m_workqueue (pool (exec evs (boot p n)))) \<le>
           m_queuestat (pool (exec evs (boot p n))) +
           tally pending_post (exec evs (boot p n)) + tally in_flight (exec evs (boot p n))"
    by (simp add: sem_inv_def)
  have "length (m_workqueue (pool (exec evs (boot p n)))) =
              m_queuestat (pool (exec evs (boot p n))) +
              tally pending_post (exec evs (boot p n)) +
              tally in_flight (exec evs (boot p n))"
    if "list_all (\<lambda>ev. \<not> is_interrupt ev) evs"
    using sem_exact_exec [OF that sem_exact_boot [OF assms]] by (simp add: sem_exact_def)
  then show ?thesis using le by simp
qed

theorem semaphore_counts_queue_witness:
  "length (m_workqueue (pool (exec [Call (Some 1), Step 1, Step 1, Step 1, Step 1]
        (boot small_pool 1)))) = 1 \<and>
   m_queuestat (pool (exec [Call (Some 1), Step 1, Step 1, Step 1, Step 1]
        (boot small_pool 1))) = 0 \<and>
   tally pending_post (exec [Call (Some 1), Step 1, Step 1, Step 1, Step 1]
        (boot small_pool 1)) = 1 \<and>
   m_queuestat (pool (exec [Call (Some 1), Step 1, Step 1, Step 1, Step 1, Step 1]
        (boot small_pool 1))) =
   length (m_workqueue (pool (exec [Call (Some 1), Step 1, Step 1, Step 1, Step 1, Step 1]
        (boot small_pool 1)))) \<and>
   length (m_workqueue (pool (exec [Step 0, Call (Some 1), Step 1, Step 1, Step 1, Interrupt 0,
        Step 1, Step 0, Step 0, Step 0, Step 1]
        (boot small_pool 1)))) <
   m_queuestat (pool (exec [Step 0, Call (Some 1), Step 1, Step 1, Step 1, Interrupt 0,
        Step 1, Step 0, Step 0, Step 0, Step 1]
        (boot small_pool 1)))"
  using semaphore_counts_queue [OF threadpool_small,
      of "[Call (Some 1), Step 1, Step 1, Step 1, Step 1]"]
    semaphore_counts_queue [OF threadpool_small,
      of "[Call (Some 1), Step 1, Step 1, Step 1, Step 1, Step 1]"]
    semaphore_counts_queue [OF threadpool_small,
      of "[Step 0, Call (Some 1), Step 1, Step 1, Step 1, Interrupt 0,
        Step 1, Step 0, Step 0, Step 0, Step 1]"]
  by (simp add: run_defs tally_def)

section \<open>The constructor's check of its arguments\<close>

text \<open>
  C7.  When \<^verbatim>\<open>thread_number\<close> or \<^verbatim>\<open>max_requests\<close> is zero or negative the
  constructor throws before it starts any thread.  When both are positive, and the
  operating system grants the mutex, the semaphore and every thread, it returns the
  pool with \<^verbatim>\<open>thread_number\<close> workers started.
\<close>

theorem constructor_checks_arguments:
  "(sint thread_number \<le> 0 \<or> sint max_requests \<le> 0 \<longrightarrow>
      (threadpool e thread_number max_requests :: nat \<times> (exn + 't threadpool)) =
        (0, Inl Std_exception)) \<and>
   (0 < sint thread_number \<and> 0 < sint max_requests \<and> mutex_init_ok e \<and> sem_init_ok e \<and>
    (\<forall>i. pthread_create_ok e i \<and> pthread_detach_ok e i) \<longrightarrow>
      (threadpool e thread_number max_requests :: nat \<times> (exn + 't threadpool)) =
        (nat (sint thread_number),
         Inr \<lparr>m_thread_number = thread_number, m_threads = [0..<nat (sint thread_number)],
              m_max_requests = max_requests, m_workqueue = [], m_queuelocker = False,
              m_queuestat = 0, m_stop = False\<rparr>))"
proof (intro conjI impI)
  assume "sint thread_number \<le> 0 \<or> sint max_requests \<le> 0"
  then show "(threadpool e thread_number max_requests :: nat \<times> (exn + 't threadpool)) =
        (0, Inl Std_exception)"
    by (auto simp: threadpool_def locker_def sem_def)
next
  assume a: "0 < sint thread_number \<and> 0 < sint max_requests \<and> mutex_init_ok e \<and>
    sem_init_ok e \<and> (\<forall>i. pthread_create_ok e i \<and> pthread_detach_ok e i)"
  then have "create_threads e 0 (nat (sint thread_number)) = (nat (sint thread_number), True)"
    by (intro create_threads_all) simp
  with a show "(threadpool e thread_number max_requests :: nat \<times> (exn + 't threadpool)) =
        (nat (sint thread_number),
         Inr \<lparr>m_thread_number = thread_number, m_threads = [0..<nat (sint thread_number)],
              m_max_requests = max_requests, m_workqueue = [], m_queuelocker = False,
              m_queuestat = 0, m_stop = False\<rparr>)"
    by (simp add: threadpool_def locker_def sem_def)
qed

theorem constructor_checks_arguments_witness:
  "(threadpool default_os 0 5 :: nat \<times> (exn + nat threadpool)) = (0, Inl Std_exception) \<and>
   (threadpool default_os (- 3) 5 :: nat \<times> (exn + nat threadpool)) = (0, Inl Std_exception) \<and>
   (threadpool default_os 4 0 :: nat \<times> (exn + nat threadpool)) = (0, Inl Std_exception) \<and>
   (threadpool default_os 1 2 :: nat \<times> (exn + nat threadpool)) = (1, Inr small_pool)"
  using constructor_checks_arguments [of 0 5 default_os, where 't = nat]
    constructor_checks_arguments [of "- 3" 5 default_os, where 't = nat]
    constructor_checks_arguments [of 4 0 default_os, where 't = nat]
    constructor_checks_arguments [of 1 2 default_os, where 't = nat]
  by (simp add: default_os_def small_pool_def)

section \<open>A call of append on a queue with room\<close>

text \<open>
  C5.  When the queue holds fewer than \<^verbatim>\<open>max_requests\<close> requests and the mutex is
  free, a call \<^verbatim>\<open>append(r)\<close> that runs its five statements without another thread
  in between puts \<open>r\<close> at the tail of the queue, raises the semaphore's count by
  exactly one, leaves the mutex free and returns true; nothing else changes.
\<close>

theorem append_below_capacity:
  assumes "i < length (threads s)" and "threads s ! i = Append_lock r"
    and "\<not> m_queuelocker (pool s)"
    and "int (length (m_workqueue (pool s))) < sint (m_max_requests (pool s))"
  shows "exec [Step i, Step i, Step i, Step i, Step i] s =
           s\<lparr>pool := (pool s)\<lparr>m_workqueue := m_workqueue (pool s) @ [r],
                               m_queuelocker := False,
                               m_queuestat := m_queuestat (pool s) + 1\<rparr>,
             threads := (threads s)[i := Append_return r True],
             pushed := pushed s @ [r]\<rparr>"
proof -
  have "\<not> queue_full (pool s)" by (rule not_full) (rule assms(4))
  then have "\<not> queue_full ((pool s)\<lparr>m_queuelocker := True\<rparr>)"
    by (simp add: queue_full_def)
  then show ?thesis
    using assms(1-3) by (simp add: instr_defs)
qed

theorem append_below_capacity_witness:
  "exec [Step 1, Step 1, Step 1, Step 1, Step 1] (fire (Call (Some 7)) (boot small_pool 1)) =
     \<lparr>pool = small_pool\<lparr>m_workqueue := [Some 7], m_queuestat := 1\<rparr>,
      threads = [Run_while, Append_return (Some 7) True],
      pushed = [Some 7], popped = [], processed = []\<rparr>"
  using append_below_capacity [of 1 "fire (Call (Some 7)) (boot small_pool 1)" "Some 7"]
  by (simp add: run_defs)

section \<open>Null requests\<close>

text \<open>
  C8.  A worker that takes a null request from the head of the queue (lines 210--211)
  removes it, releases the mutex and is back at the head of its loop after three
  statements; \<^verbatim>\<open>process()\<close> is not called, nothing fails, and the worker can go on.
\<close>

theorem null_request_discarded:
  assumes "i < length (threads s)" and "threads s ! i = Run_front"
    and "m_workqueue (pool s) = None # q"
  shows "exec [Step i, Step i, Step i] s =
           s\<lparr>pool := (pool s)\<lparr>m_workqueue := q, m_queuelocker := False\<rparr>,
             threads := (threads s)[i := Run_while],
             popped := popped s @ [None]\<rparr> \<and>
         processed (exec [Step i, Step i, Step i] s) = processed s \<and>
         instr (threads (exec [Step i, Step i, Step i] s) ! i) (exec [Step i, Step i, Step i] s)
           \<noteq> None"
  using assms by (simp add: instr_defs)

theorem null_request_discarded_witness:
  "exec [Step 0, Step 0, Step 0]
     (exec [Call None, Step 1, Step 1, Step 1, Step 1, Step 1, Step 0, Step 0, Step 0, Step 0]
        (boot small_pool 1)) =
     \<lparr>pool = small_pool, threads = [Run_while, Append_return None True],
      pushed = [None], popped = [None], processed = []\<rparr>"
  using null_request_discarded [of 0
     "exec [Call None, Step 1, Step 1, Step 1, Step 1, Step 1, Step 0, Step 0, Step 0, Step 0]
        (boot small_pool 1)" "[]"]
  by (simp add: run_defs)

text \<open>
  C10.  \<^verbatim>\<open>append\<close> does not look at its argument.  On a queue with room and with the
  mutex free, a call with the null pointer that runs its five statements returns true,
  leaves the null pointer at the tail of the queue and posts the semaphore once, like
  any request; nothing else changes, so \<^verbatim>\<open>process()\<close> is not called.  The null
  pointer counts for the test of line 136: the queue is then full exactly if it held
  one request less than \<^verbatim>\<open>max_requests\<close>.  It is dropped only when a worker
  dispatches it: when a worker that stands in \<^verbatim>\<open>wait()\<close> finds it at the head of
  the queue, six statements (lines 194--213) take the unit, remove it and bring the
  worker back to the head of its loop without a call of \<^verbatim>\<open>process()\<close>.  In
  particular, on a queue that was empty, the call followed by that dispatch leaves the
  pool as it was.
\<close>

theorem append_takes_null_request:
  assumes "i < length (threads s)" and "threads s ! i = Append_lock None"
    and "\<not> m_queuelocker (pool s)"
    and "int (length (m_workqueue (pool s))) < sint (m_max_requests (pool s))"
  shows "exec [Step i, Step i, Step i, Step i, Step i] s =
           s\<lparr>pool := (pool s)\<lparr>m_workqueue := m_workqueue (pool s) @ [None],
                               m_queuelocker := False,
                               m_queuestat := m_queuestat (pool s) + 1\<rparr>,
             threads := (threads s)[i := Append_return None True],
             pushed := pushed s @ [None]\<rparr> \<and>
         queue_full (pool (exec [Step i, Step i, Step i, Step i, Step i] s)) =
           (int (length (m_workqueue (pool s))) + 1 = sint (m_max_requests (pool s))) \<and>
         (j < length (threads t) \<and> threads t ! j = Run_wait \<and> 0 < m_queuestat (pool t) \<and>
          \<not> m_queuelocker (pool t) \<and> m_workqueue (pool t) = None # q \<longrightarrow>
            exec [Step j, Step j, Step j, Step j, Step j, Step j] t =
              t\<lparr>pool := (pool t)\<lparr>m_workqueue := q, m_queuelocker := False,
                                  m_queuestat := m_queuestat (pool t) - 1\<rparr>,
                threads := (threads t)[j := Run_while],
                popped := popped t @ [None]\<rparr>) \<and>
         (j < length (threads s) \<and> threads s ! j = Run_wait \<and> m_workqueue (pool s) = [] \<longrightarrow>
            exec ([Step i, Step i, Step i, Step i, Step i] @
                  [Step j, Step j, Step j, Step j, Step j, Step j]) s =
              s\<lparr>pool := (pool s)\<lparr>m_workqueue := [], m_queuelocker := False,
                                  m_queuestat := m_queuestat (pool s)\<rparr>,
                threads := (threads s)[i := Append_return None True, j := Run_while],
                pushed := pushed s @ [None],
                popped := popped s @ [None]\<rparr>)"
proof -
  have pos: "0 < sint (m_max_requests (pool s))" using assms(4) by linarith
  have nf: "\<not> queue_full (pool s)" by (rule not_full) (rule assms(4))
  then have "\<not> queue_full ((pool s)\<lparr>m_queuelocker := True\<rparr>)"
    by (simp add: queue_full_def)
  then have run: "exec [Step i, Step i, Step i, Step i, Step i] s =
           s\<lparr>pool := (pool s)\<lparr>m_workqueue := m_workqueue (pool s) @ [None],
                               m_queuelocker := False,
                               m_queuestat := m_queuestat (pool s) + 1\<rparr>,
             threads := (threads s)[i := Append_return None True],
             pushed := pushed s @ [None]\<rparr>"
    using assms(1-3) by (simp add: instr_defs)
  have full: "queue_full (pool (exec [Step i, Step i, Step i, Step i, Step i] s)) =
           (int (length (m_workqueue (pool s))) + 1 = sint (m_max_requests (pool s)))"
    unfolding run using assms(4) pos by (simp add: queue_full_def capacity_positive) linarith
  have dispatch: "exec [Step j, Step j, Step j, Step j, Step j, Step j] u =
              u\<lparr>pool := (pool u)\<lparr>m_workqueue := q', m_queuelocker := False,
                                  m_queuestat := m_queuestat (pool u) - 1\<rparr>,
                threads := (threads u)[j := Run_while],
                popped := popped u @ [None]\<rparr>"
    if "j < length (threads u)" and "threads u ! j = Run_wait" and "0 < m_queuestat (pool u)"
      and "\<not> m_queuelocker (pool u)" and "m_workqueue (pool u) = None # q'" for u q'
    using that by (simp add: instr_defs)
  have both: "exec ([Step i, Step i, Step i, Step i, Step i] @
                  [Step j, Step j, Step j, Step j, Step j, Step j]) s =
              s\<lparr>pool := (pool s)\<lparr>m_workqueue := [], m_queuelocker := False,
                                  m_queuestat := m_queuestat (pool s)\<rparr>,
                threads := (threads s)[i := Append_return None True, j := Run_while],
                pushed := pushed s @ [None],
                popped := popped s @ [None]\<rparr>"
    if j: "j < length (threads s)" and w: "threads s ! j = Run_wait"
      and e: "m_workqueue (pool s) = []"
  proof -
    have ne: "j \<noteq> i" using w assms(2) by auto
    let ?u = "s\<lparr>pool := (pool s)\<lparr>m_workqueue := m_workqueue (pool s) @ [None],
                               m_queuelocker := False,
                               m_queuestat := m_queuestat (pool s) + 1\<rparr>,
             threads := (threads s)[i := Append_return None True],
             pushed := pushed s @ [None]\<rparr>"
    have "exec [Step j, Step j, Step j, Step j, Step j, Step j] ?u =
              ?u\<lparr>pool := (pool ?u)\<lparr>m_workqueue := [], m_queuelocker := False,
                                  m_queuestat := m_queuestat (pool ?u) - 1\<rparr>,
                threads := (threads ?u)[j := Run_while],
                popped := popped ?u @ [None]\<rparr>"
      by (rule dispatch) (simp_all add: j w e ne ne [symmetric])
    then have "exec [Step j, Step j, Step j, Step j, Step j, Step j]
                 (exec [Step i, Step i, Step i, Step i, Step i] s) =
              ?u\<lparr>pool := (pool ?u)\<lparr>m_workqueue := [], m_queuelocker := False,
                                  m_queuestat := m_queuestat (pool ?u) - 1\<rparr>,
                threads := (threads ?u)[j := Run_while],
                popped := popped ?u @ [None]\<rparr>"
      by (simp only: run)
    also have "\<dots> = s\<lparr>pool := (pool s)\<lparr>m_workqueue := [], m_queuelocker := False,
                                  m_queuestat := m_queuestat (pool s)\<rparr>,
                threads := (threads s)[i := Append_return None True, j := Run_while],
                pushed := pushed s @ [None],
                popped := popped s @ [None]\<rparr>"
      by (simp add: e)
    finally show ?thesis
      by (simp only: exec_append)
  qed
  show ?thesis
  proof (intro conjI impI)
    show "exec [Step i, Step i, Step i, Step i, Step i] s =
           s\<lparr>pool := (pool s)\<lparr>m_workqueue := m_workqueue (pool s) @ [None],
                               m_queuelocker := False,
                               m_queuestat := m_queuestat (pool s) + 1\<rparr>,
             threads := (threads s)[i := Append_return None True],
             pushed := pushed s @ [None]\<rparr>"
      by (rule run)
    show "queue_full (pool (exec [Step i, Step i, Step i, Step i, Step i] s)) =
           (int (length (m_workqueue (pool s))) + 1 = sint (m_max_requests (pool s)))"
      by (rule full)
  next
    assume a: "j < length (threads t) \<and> threads t ! j = Run_wait \<and> 0 < m_queuestat (pool t) \<and>
          \<not> m_queuelocker (pool t) \<and> m_workqueue (pool t) = None # q"
    show "exec [Step j, Step j, Step j, Step j, Step j, Step j] t =
              t\<lparr>pool := (pool t)\<lparr>m_workqueue := q, m_queuelocker := False,
                                  m_queuestat := m_queuestat (pool t) - 1\<rparr>,
                threads := (threads t)[j := Run_while],
                popped := popped t @ [None]\<rparr>"
      by (rule dispatch) (simp_all add: a)
  next
    assume a: "j < length (threads s) \<and> threads s ! j = Run_wait \<and> m_workqueue (pool s) = []"
    show "exec ([Step i, Step i, Step i, Step i, Step i] @
                  [Step j, Step j, Step j, Step j, Step j, Step j]) s =
              s\<lparr>pool := (pool s)\<lparr>m_workqueue := [], m_queuelocker := False,
                                  m_queuestat := m_queuestat (pool s)\<rparr>,
                threads := (threads s)[i := Append_return None True, j := Run_while],
                pushed := pushed s @ [None],
                popped := popped s @ [None]\<rparr>"
      by (rule both) (simp_all add: a)
  qed
qed

theorem append_takes_null_request_witness:
  "exec [Step 1, Step 1, Step 1, Step 1, Step 1] (exec [Step 0, Call None] (boot small_pool 1)) =
     \<lparr>pool = small_pool\<lparr>m_workqueue := [None], m_queuestat := 1\<rparr>,
      threads = [Run_wait, Append_return None True],
      pushed = [None], popped = [], processed = []\<rparr> \<and>
   exec [Step 0, Step 0, Step 0, Step 0, Step 0, Step 0]
     \<lparr>pool = small_pool\<lparr>m_workqueue := [None], m_queuestat := 1\<rparr>,
      threads = [Run_wait, Append_return None True],
      pushed = [None], popped = [], processed = []\<rparr> =
     \<lparr>pool = small_pool, threads = [Run_while, Append_return None True],
      pushed = [None], popped = [None], processed = []\<rparr> \<and>
   exec ([Step 1, Step 1, Step 1, Step 1, Step 1] @
         [Step 0, Step 0, Step 0, Step 0, Step 0, Step 0])
     (exec [Step 0, Call None] (boot small_pool 1)) =
     \<lparr>pool = small_pool, threads = [Run_while, Append_return None True],
      pushed = [None], popped = [None], processed = []\<rparr> \<and>
   \<not> queue_full (pool (exec [Step 1, Step 1, Step 1, Step 1, Step 1]
     (exec [Step 0, Call None] (boot small_pool 1)))) \<and>
   queue_full (pool (exec [Step 2, Step 2, Step 2, Step 2, Step 2]
     (exec [Call (Some 1), Step 1, Step 1, Step 1, Step 1, Step 1, Call None]
        (boot small_pool 1))))"
proof -
  let ?s = "exec [Step 0, Call None] (boot small_pool 1)"
  let ?m = "\<lparr>pool = small_pool\<lparr>m_workqueue := [None], m_queuestat := 1\<rparr>,
      threads = [Run_wait, Append_return None True],
      pushed = [None], popped = [], processed = []\<rparr>"
  let ?b = "exec [Call (Some 1), Step 1, Step 1, Step 1, Step 1, Step 1, Call None]
        (boot small_pool 1)"
  have s: "?s = \<lparr>pool = small_pool, threads = [Run_wait, Append_lock None],
      pushed = [], popped = [], processed = []\<rparr>"
    by (simp add: run_defs)
  have b: "?b = \<lparr>pool = small_pool\<lparr>m_workqueue := [Some 1], m_queuestat := 1\<rparr>,
      threads = [Run_while, Append_return (Some 1) True, Append_lock None],
      pushed = [Some 1], popped = [], processed = []\<rparr>"
    by (simp add: run_defs)
  have a: "1 < length (threads ?s)" "threads ?s ! 1 = Append_lock None"
    "\<not> m_queuelocker (pool ?s)"
    "int (length (m_workqueue (pool ?s))) < sint (m_max_requests (pool ?s))"
    "0 < length (threads ?s) \<and> threads ?s ! 0 = Run_wait \<and> m_workqueue (pool ?s) = []"
    unfolding s by (simp_all add: small_pool_def)
  have m: "0 < length (threads ?m) \<and> threads ?m ! 0 = Run_wait \<and>
      0 < m_queuestat (pool ?m) \<and> \<not> m_queuelocker (pool ?m) \<and>
      m_workqueue (pool ?m) = None # []"
    by (simp add: small_pool_def)
  have c: "2 < length (threads ?b)" "threads ?b ! 2 = Append_lock None"
    "\<not> m_queuelocker (pool ?b)"
    "int (length (m_workqueue (pool ?b))) < sint (m_max_requests (pool ?b))"
    unfolding b by (simp_all add: small_pool_def)
  note t = append_takes_null_request [OF a(1-4), of 0 ?m "[]"]
  note u = append_takes_null_request [OF c, of 0 ?m "[]"]
  have "exec [Step 1, Step 1, Step 1, Step 1, Step 1] ?s = ?m"
    unfolding t [THEN conjunct1] unfolding s by (simp add: small_pool_def)
  moreover have "exec [Step 0, Step 0, Step 0, Step 0, Step 0, Step 0] ?m =
     \<lparr>pool = small_pool, threads = [Run_while, Append_return None True],
      pushed = [None], popped = [None], processed = []\<rparr>"
    unfolding t [THEN conjunct2, THEN conjunct2, THEN conjunct1, rule_format, OF m]
    by (simp add: small_pool_def)
  moreover have "exec ([Step 1, Step 1, Step 1, Step 1, Step 1] @
         [Step 0, Step 0, Step 0, Step 0, Step 0, Step 0]) ?s =
     \<lparr>pool = small_pool, threads = [Run_while, Append_return None True],
      pushed = [None], popped = [None], processed = []\<rparr>"
    unfolding t [THEN conjunct2, THEN conjunct2, THEN conjunct2, rule_format, OF a(5)]
    unfolding s by (simp add: small_pool_def)
  moreover have "\<not> queue_full (pool (exec [Step 1, Step 1, Step 1, Step 1, Step 1] ?s))"
    unfolding t [THEN conjunct2, THEN conjunct1] unfolding s by (simp add: small_pool_def)
  moreover have "queue_full (pool (exec [Step 2, Step 2, Step 2, Step 2, Step 2] ?b))"
    unfolding u [THEN conjunct2, THEN conjunct1] unfolding b by (simp add: small_pool_def)
  ultimately show ?thesis by (intro conjI)
qed

section \<open>The stop flag\<close>




section \<open>When append returns false\<close>

text \<open>
  C2.  Take any reachable state in which a call \<^verbatim>\<open>append(r)\<close> stands at the test of
  line 136, and any continuation, with any interleaving, in which that call has
  returned.  It has returned false if and only if the queue held exactly
  \<^verbatim>\<open>max_requests\<close> requests at the test, and true otherwise.
\<close>

theorem append_false_iff_full:
  assumes "threadpool e thread_number max_requests = (n, Inr p)"
    and "i < length (threads (exec evs (boot p n)))"
    and "threads (exec evs (boot p n)) ! i = Append_check r"
    and "threads (exec (evs @ evs') (boot p n)) ! i = Append_return r' b"
  shows "r' = r \<and>
         (b = False \<longleftrightarrow>
            int (length (m_workqueue (pool (exec evs (boot p n))))) = sint max_requests)"
proof -
  let ?s = "exec evs (boot p n)"
  have sys_inv: "sys_inv ?s" by (rule sys_inv_reachable [OF assms(1)])
  have "past_check i r (queue_full (pool ?s)) ?s"
    using assms(2,3) by (simp add: past_check_def)
  then have "past_check i r (queue_full (pool ?s)) (exec evs' ?s)"
    by (rule past_check_exec [OF sys_inv])
  then have a: "after_check r (queue_full (pool ?s)) (Append_return r' b)"
    using assms(4) by (simp add: past_check_def exec_append)
  have "capacity_inv ?s" using sys_inv by (simp add: sys_inv_def)
  then have le: "length (m_workqueue (pool ?s)) \<le> nat (sint max_requests)"
    by (simp add: capacity_inv_def capacity_boot [OF assms(1)])
  have "queue_full (pool ?s) = (capacity (pool ?s) \<le> length (m_workqueue (pool ?s)))"
    by (simp add: queue_full_def capacity_def)
  then have full: "queue_full (pool ?s) =
      (int (length (m_workqueue (pool ?s))) = sint max_requests)"
    using le threadpool_Inr(2) [OF assms(1)] by (simp add: capacity_boot [OF assms(1)]) linarith
  show ?thesis
    using a unfolding full by (auto simp: after_check_def split: if_splits)
qed

theorem append_false_iff_full_witness:
  "threads (exec ([Call (Some 1), Step 1, Step 1, Step 1, Step 1, Step 1,
       Call (Some 2), Step 2, Step 2, Step 2, Step 2, Step 2,
       Call (Some 3), Step 3] @ [Step 0, Step 3, Step 3]) (boot small_pool 1)) ! 3 =
     Append_return (Some 3) False \<and>
   int (length (m_workqueue (pool (exec [Call (Some 1), Step 1, Step 1, Step 1, Step 1, Step 1,
       Call (Some 2), Step 2, Step 2, Step 2, Step 2, Step 2,
       Call (Some 3), Step 3] (boot small_pool 1))))) = sint (2 :: 32 word) \<and>
   threads (exec ([Call (Some 1), Step 1] @ [Step 0, Step 1, Step 1, Step 1, Step 1])
       (boot small_pool 1)) ! 1 = Append_return (Some 1) True \<and>
   int (length (m_workqueue (pool (exec [Call (Some 1), Step 1] (boot small_pool 1))))) \<noteq>
     sint (2 :: 32 word)"
  using append_false_iff_full [OF threadpool_small,
      of 3 "[Call (Some 1), Step 1, Step 1, Step 1, Step 1, Step 1,
       Call (Some 2), Step 2, Step 2, Step 2, Step 2, Step 2,
       Call (Some 3), Step 3]" "Some 3" "[Step 0, Step 3, Step 3]" "Some 3" False]
    append_false_iff_full [OF threadpool_small,
      of 1 "[Call (Some 1), Step 1]" "Some 1" "[Step 0, Step 1, Step 1, Step 1, Step 1]"
      "Some 1" True]
  by (simp add: run_defs)

section \<open>Every accepted task is processed exactly once\<close>

text \<open>
  C1, as stated: every task for which \<^verbatim>\<open>append\<close> returned true is executed exactly
  once.  The null pointer is accepted like any request (nothing in \<^verbatim>\<open>append\<close> tests
  it) and dropped by the test of line 213: here \<^verbatim>\<open>append\<close> has returned true for it,
  the worker has taken it from the queue and waits again, no thread can move, and
  nothing was processed.
\<close>

theorem accepted_null_not_processed_counterexample:
  "threads (exec [Call None, Step 1, Step 1, Step 1, Step 1, Step 1,
       Step 0, Step 0, Step 0, Step 0, Step 0, Step 0, Step 0, Step 0]
       (boot small_pool 1)) ! 1 = Append_return None True \<and>
   quiescent (exec [Call None, Step 1, Step 1, Step 1, Step 1, Step 1,
       Step 0, Step 0, Step 0, Step 0, Step 0, Step 0, Step 0, Step 0]
       (boot small_pool 1)) \<and>
   m_workqueue (pool (exec [Call None, Step 1, Step 1, Step 1, Step 1, Step 1,
       Step 0, Step 0, Step 0, Step 0, Step 0, Step 0, Step 0, Step 0]
       (boot small_pool 1))) = [] \<and>
   processed (exec [Call None, Step 1, Step 1, Step 1, Step 1, Step 1,
       Step 0, Step 0, Step 0, Step 0, Step 0, Step 0, Step 0, Step 0]
       (boot small_pool 1)) = []"
  by (simp add: run_defs quiescent_def)

text \<open>
  C1, amended to the tasks behind non-null requests.  Take any interleaving of calls of
  \<^verbatim>\<open>append\<close>, statements of the threads and failed waits on a freshly constructed
  pool that is not being destroyed.  The tasks are counted with their multiplicity.
  \<^item> The tasks for which \<^verbatim>\<open>append\<close> has returned true or is about to, are exactly
    those that were processed, are in a worker's hand, or wait in the queue: none is
    lost and none is processed twice.
  \<^item> Whenever no thread can move, the queue is empty and the tasks processed are
    exactly the tasks for which \<^verbatim>\<open>append\<close> returned true.
  \<^item> The threads can always run on to such a state, in which every task accepted so
    far has been processed.
\<close>

theorem accepted_tasks_processed_once:
  assumes "threadpool e thread_number max_requests = (n, Inr p)" and "Stop \<notin> set evs"
  shows "tally accepted (exec evs (boot p n)) + tally posting (exec evs (boot p n)) =
           mset (processed (exec evs (boot p n))) + tally in_hand (exec evs (boot p n)) +
           mset (tasks (m_workqueue (pool (exec evs (boot p n))))) \<and>
         (quiescent (exec evs (boot p n)) \<longrightarrow>
            m_workqueue (pool (exec evs (boot p n))) = [] \<and>
            mset (processed (exec evs (boot p n))) = tally accepted (exec evs (boot p n))) \<and>
         (\<exists>sched. quiescent (exec (evs @ map Step sched) (boot p n)) \<and>
            m_workqueue (pool (exec (evs @ map Step sched) (boot p n))) = [] \<and>
            tally accepted (exec evs (boot p n)) \<subseteq>#
              tally accepted (exec (evs @ map Step sched) (boot p n)) \<and>
            mset (processed (exec (evs @ map Step sched) (boot p n))) =
              tally accepted (exec (evs @ map Step sched) (boot p n)))"
proof -
  have drained: "m_workqueue (pool (exec evs' (boot p n))) = [] \<and>
      mset (processed (exec evs' (boot p n))) = tally accepted (exec evs' (boot p n))"
    if "Stop \<notin> set evs'" and "quiescent (exec evs' (boot p n))" for evs'
  proof -
    let ?s = "exec evs' (boot p n)"
    have sys_inv: "sys_inv ?s" by (rule sys_inv_reachable [OF assms(1)])
    have "\<not> m_stop (pool ?s)"
      using that(1) by (simp add: stop_exec boot_def threadpool_Inr(4) [OF assms(1)])
    moreover have "0 < tally is_worker ?s"
      using threadpool_Inr(1,3) [OF assms(1)] by (simp add: is_worker_exec tally_boot_workers)
    ultimately have "m_workqueue (pool ?s) = []" and "tally in_hand ?s = {#}"
      and "tally posting ?s = {#}"
      using quiescent_drained [OF sys_inv that(2)] by simp_all
    then show ?thesis using conservation [OF sys_inv] by simp
  qed
  obtain sched where q: "quiescent (exec (map Step sched) (exec evs (boot p n)))"
    using run_to_quiescence by blast
  have "Stop \<notin> set (evs @ map Step sched)" using assms(2) by auto
  then have "m_workqueue (pool (exec (evs @ map Step sched) (boot p n))) = [] \<and>
      mset (processed (exec (evs @ map Step sched) (boot p n))) =
      tally accepted (exec (evs @ map Step sched) (boot p n))"
    using q by (intro drained) (simp_all add: exec_append)
  moreover have "tally accepted (exec evs (boot p n)) \<subseteq>#
      tally accepted (exec (evs @ map Step sched) (boot p n))"
    by (simp add: exec_append accepted_exec)
  ultimately have "\<exists>sched. quiescent (exec (evs @ map Step sched) (boot p n)) \<and>
            m_workqueue (pool (exec (evs @ map Step sched) (boot p n))) = [] \<and>
            tally accepted (exec evs (boot p n)) \<subseteq>#
              tally accepted (exec (evs @ map Step sched) (boot p n)) \<and>
            mset (processed (exec (evs @ map Step sched) (boot p n))) =
              tally accepted (exec (evs @ map Step sched) (boot p n))"
    using q by (auto simp: exec_append)
  then show ?thesis
    using conservation [OF sys_inv_reachable [OF assms(1)]] drained [OF assms(2)] by blast
qed

theorem accepted_tasks_processed_once_witness:
  "quiescent (exec [Call (Some 1), Step 1, Step 1, Step 1, Step 1, Step 1,
       Call (Some 2), Step 2, Step 2, Step 2, Step 2, Step 2,
       Step 0, Step 0, Step 0, Step 0, Step 0, Step 0, Step 0, Step 0,
       Step 0, Step 0, Step 0, Step 0, Step 0, Step 0, Step 0, Step 0, Step 0]
       (boot small_pool 1)) \<and>
   processed (exec [Call (Some 1), Step 1, Step 1, Step 1, Step 1, Step 1,
       Call (Some 2), Step 2, Step 2, Step 2, Step 2, Step 2,
       Step 0, Step 0, Step 0, Step 0, Step 0, Step 0, Step 0, Step 0,
       Step 0, Step 0, Step 0, Step 0, Step 0, Step 0, Step 0, Step 0, Step 0]
       (boot small_pool 1)) = [1, 2] \<and>
   tally accepted (exec [Call (Some 1), Step 1, Step 1, Step 1, Step 1, Step 1,
       Call (Some 2), Step 2, Step 2, Step 2, Step 2, Step 2,
       Step 0, Step 0, Step 0, Step 0, Step 0, Step 0, Step 0, Step 0,
       Step 0, Step 0, Step 0, Step 0, Step 0, Step 0, Step 0, Step 0, Step 0]
       (boot small_pool 1)) = mset [1, 2]"
proof -
  let ?evs = "[Call (Some 1), Step 1, Step 1, Step 1, Step 1, Step 1,
       Call (Some 2), Step 2, Step 2, Step 2, Step 2, Step 2,
       Step 0, Step 0, Step 0, Step 0, Step 0, Step 0, Step 0, Step 0,
       Step 0, Step 0, Step 0, Step 0, Step 0, Step 0, Step 0, Step 0, Step 0]
       :: nat event list"
  have run: "exec ?evs (boot small_pool 1) =
      \<lparr>pool = small_pool,
       threads = [Run_wait, Append_return (Some 1) True, Append_return (Some 2) True],
       pushed = [Some 1, Some 2], popped = [Some 1, Some 2], processed = [1, 2]\<rparr>"
    by (simp add: run_defs)
  have q: "quiescent (exec ?evs (boot small_pool 1))"
    unfolding run by (simp add: quiescent_def small_pool_def wait_def run_wait_def)
  have p: "processed (exec ?evs (boot small_pool 1)) = [1, 2]"
    unfolding run by simp
  have "Stop \<notin> set ?evs" by simp
  note drained = accepted_tasks_processed_once [OF threadpool_small this,
      THEN conjunct2, THEN conjunct1, rule_format, OF q, THEN conjunct2]
  have a: "tally accepted (exec ?evs (boot small_pool 1)) = mset [1, 2]"
    unfolding drained [symmetric] p by (rule refl)
  show ?thesis by (intro conjI q p a)
qed

end
